theory Spec2Isabelle
  imports Main
begin

section \<open>Bytes, strings and the JavaScript library functions the server uses\<close>

text \<open>
  A Node \<open>Buffer\<close> is a sequence of bytes. The server converts between buffers and
  strings with the \<open>latin1\<close> encoding only, which maps byte \<open>n\<close> to code unit \<open>n\<close>
  and back, so a buffer and its latin1 string are the same list of 8-bit characters.
  Numbers that hold lengths and indices are integers here; \<open>parseInt\<close> is exact in the
  model (JavaScript rounds beyond \<open>2^53\<close>).
\<close>

type_synonym Buffer = "char list"

definition CR :: char where "CR = CHR 0x0D"
definition LF :: char where "LF = CHR 0x0A"

definition CRLF :: string where "CRLF = [CR, LF]"
definition CRLFCRLF :: string where "CRLFCRLF = [CR, LF, CR, LF]"

text \<open>\<open>class HTTPError extends Error\<close>: an error is a plain \<open>Error\<close> with a message
  (also what the socket reports) or an \<open>HTTPError\<close> with a status code.\<close>

datatype Error = Error string | HTTPError nat string

text \<open>The settled state of a promise; \<open>Pending\<close> is a promise that never settles.\<close>

datatype 'a Promise = Resolved 'a | Rejected Error | Pending

text \<open>Relative indices of \<open>subarray\<close> and \<open>copyWithin\<close>: a negative index counts from
  the end, and the result is clamped to \<open>[0, n]\<close>.\<close>

definition relIndex :: "nat \<Rightarrow> int \<Rightarrow> nat" where
  "relIndex n k = (if k < 0 then nat (max 0 (int n + k)) else min (nat k) n)"

definition subarray :: "Buffer \<Rightarrow> int \<Rightarrow> int \<Rightarrow> Buffer" where
  "subarray xs start end =
     (let n = length xs; a = relIndex n start; b = relIndex n end
      in take (b - a) (drop a xs))"

text \<open>\<open>xs.copyWithin(target, start, end)\<close>: the bytes \<open>[start, end)\<close> are moved to
  \<open>target\<close>, as many as fit.\<close>

definition copyWithin :: "Buffer \<Rightarrow> int \<Rightarrow> int \<Rightarrow> int \<Rightarrow> Buffer" where
  "copyWithin xs target start end =
     (let n = length xs; to = relIndex n target; from = relIndex n start;
          final = relIndex n end; count = min (final - from) (n - to)
      in if 0 < count then take to xs @ take count (drop from xs) @ drop (to + count) xs
         else xs)"

text \<open>\<open>src.copy(tgt, targetStart, sourceStart, sourceEnd)\<close> returns the target after
  the copy. The server passes \<open>sourceStart = 0\<close> and lengths that are never negative, so
  the range errors of \<open>copy\<close> cannot arise.\<close>

definition copy :: "Buffer \<Rightarrow> Buffer \<Rightarrow> nat \<Rightarrow> nat \<Rightarrow> nat \<Rightarrow> Buffer" where
  "copy src tgt targetStart sourceStart sourceEnd =
     (if length tgt \<le> targetStart \<or> sourceEnd \<le> sourceStart then tgt
      else let nb = min (min (sourceEnd - sourceStart) (length tgt - targetStart))
                        (length src - sourceStart)
           in take targetStart tgt @ take nb (drop sourceStart src) @ drop (targetStart + nb) tgt)"

text \<open>\<open>xs.indexOf(pat)\<close>: the first position where \<open>pat\<close> occurs; \<open>None\<close> stands for
  \<open>-1\<close>.\<close>

fun indexOf :: "'a list \<Rightarrow> 'a list \<Rightarrow> nat option" where
  "indexOf pat [] = (if pat = [] then Some 0 else None)"
| "indexOf pat (x # xs) =
     (if take (length pat) (x # xs) = pat then Some 0
      else map_option Suc (indexOf pat xs))"

text \<open>\<open>s.split(sep)\<close> with a string separator: the pieces between the successive
  occurrences of \<open>sep\<close>, found from left to right; an empty separator splits into
  single code units.\<close>

function splitFrom :: "string \<Rightarrow> string \<Rightarrow> string \<Rightarrow> string list" where
  "splitFrom sep cur [] = [cur]"
| "splitFrom sep cur (x # xs) =
     (if sep \<noteq> [] \<and> take (length sep) (x # xs) = sep
      then cur # splitFrom sep [] (drop (length sep) (x # xs))
      else splitFrom sep (cur @ [x]) xs)"
  by pat_completeness auto
termination
  by (relation "measure (\<lambda>(sep, cur, s). length s)") auto

definition split :: "string \<Rightarrow> string \<Rightarrow> string list" where
  "split sep s = (if sep = [] then map (\<lambda>c. [c]) s else splitFrom sep [] s)"

text \<open>\<open>s.split(sep, limit)\<close> keeps the first \<open>limit\<close> pieces.\<close>

definition splitLimit :: "string \<Rightarrow> nat \<Rightarrow> string \<Rightarrow> string list" where
  "splitLimit sep limit s = take limit (split sep s)"

definition startsWith :: "string \<Rightarrow> string \<Rightarrow> bool" where
  "startsWith s p = (take (length p) s = p)"

fun join :: "string \<Rightarrow> string list \<Rightarrow> string" where
  "join sep [] = []"
| "join sep [x] = x"
| "join sep (x # y # ys) = x @ sep @ join sep (y # ys)"

text \<open>White space of \<open>trim\<close> and \<open>parseInt\<close> among the code units below 256: TAB, LF,
  VT, FF, CR, space and the no-break space.\<close>

definition isWhiteSpace :: "char \<Rightarrow> bool" where
  "isWhiteSpace c = ((of_char c :: nat) \<in> {9, 10, 11, 12, 13, 32, 160})"

definition trim :: "string \<Rightarrow> string" where
  "trim s = rev (dropWhile isWhiteSpace (rev (dropWhile isWhiteSpace s)))"

text \<open>\<open>toLowerCase\<close> on code units below 256: A to Z and the accented capitals
  \<open>0xC0\<close> to \<open>0xDE\<close> (without the multiplication sign \<open>0xD7\<close>) move up by 32.\<close>

definition lowerChar :: "char \<Rightarrow> char" where
  "lowerChar c =
     (let n = (of_char c :: nat)
      in if (65 \<le> n \<and> n \<le> 90) \<or> (192 \<le> n \<and> n \<le> 222 \<and> n \<noteq> 215)
         then char_of (n + 32) else c)"

definition toLowerCase :: "string \<Rightarrow> string" where
  "toLowerCase s = map lowerChar s"

definition isDigit :: "char \<Rightarrow> bool" where
  "isDigit c = (48 \<le> (of_char c :: nat) \<and> (of_char c :: nat) \<le> 57)"

definition digitVal :: "char \<Rightarrow> nat" where
  "digitVal c = (of_char c :: nat) - 48"

definition digitsVal :: "string \<Rightarrow> nat" where
  "digitsVal ds = foldl (\<lambda>acc c. 10 * acc + digitVal c) 0 ds"

text \<open>\<open>parseInt(s, 10)\<close>: leading white space is skipped, then an optional sign, then
  the longest run of decimal digits; whatever follows is ignored. \<open>None\<close> stands for
  \<open>NaN\<close> (no digit where one is expected).\<close>

definition parseInt :: "string \<Rightarrow> int option" where
  "parseInt s =
     (let t = dropWhile isWhiteSpace s;
          neg = (t \<noteq> [] \<and> hd t = CHR ''-'');
          u = (if t \<noteq> [] \<and> (hd t = CHR ''-'' \<or> hd t = CHR ''+'') then tl t else t);
          z = takeWhile isDigit u
      in if z = [] then None
         else Some (if neg then - int (digitsVal z) else int (digitsVal z)))"

text \<open>Decimal rendering of a number inside a template string.\<close>

function showNat :: "nat \<Rightarrow> string" where
  "showNat n = (if n < 10 then [char_of (48 + n)] else showNat (n div 10) @ [char_of (48 + n mod 10)])"
  by pat_completeness auto
termination
  by (relation "measure id") auto

declare showNat.simps [simp del]

definition showInt :: "int \<Rightarrow> string" where
  "showInt i = (if i < 0 then CHR ''-'' # showNat (nat (- i)) else showNat (nat i))"

section \<open>Dynamic buffer\<close>

text \<open>\<open>type DynBuf = { data: Buffer; length: number }\<close>. The storage is \<open>data\<close>, its
  capacity is the length of that list, and \<open>length_buf\<close> is the field \<open>length\<close>. The
  field never goes negative in the server: \<open>bufPop\<close> is called with \<open>idx + 4\<close> for an
  index found below \<open>buf.length\<close>, or with \<open>Math.min(buf.length, remain)\<close>.\<close>

record DynBuf =
  data :: Buffer
  length_buf :: nat

text \<open>The loop \<open>while (cap < newLen) cap *= 2\<close>. It is entered with
  \<open>cap = Math.max(buf.data.length, 32)\<close>, so \<open>cap\<close> is positive; the test \<open>0 < cap\<close>
  only makes the recursion total.\<close>

function growCap :: "nat \<Rightarrow> nat \<Rightarrow> nat" where
  "growCap cap newLen = (if 0 < cap \<and> cap < newLen then growCap (cap * 2) newLen else cap)"
  by pat_completeness auto
termination
  by (relation "measure (\<lambda>(cap, newLen). newLen - cap)") auto

declare growCap.simps [simp del]

definition bufPush :: "DynBuf \<Rightarrow> Buffer \<Rightarrow> DynBuf" where
  "bufPush buf d =
     (let newLen = length_buf buf + length d;
          buf1 = (if length (data buf) < newLen
                  then let cap = growCap (max (length (data buf)) 32) newLen;
                           grown = replicate cap (CHR 0x00)
                       in buf\<lparr>data := copy (data buf) grown 0 0 (length_buf buf)\<rparr>
                  else buf)
      in buf1\<lparr>data := copy d (data buf1) (length_buf buf1) 0 (length d),
              length_buf := newLen\<rparr>)"

text \<open>\<open>bufPop(buf, len)\<close>; \<open>len\<close> is negative when a request declares a negative
  Content-Length, and the length field then grows.\<close>

definition bufPop :: "DynBuf \<Rightarrow> int \<Rightarrow> DynBuf" where
  "bufPop buf len =
     buf\<lparr>data := copyWithin (data buf) 0 len (int (length_buf buf)),
         length_buf := nat (int (length_buf buf) - len)\<rparr>"

text \<open>The buffer a connection starts with: \<open>{ data: Buffer.alloc(0), length: 0 }\<close>.\<close>

definition emptyBuf :: DynBuf where
  "emptyBuf = \<lparr>data = [], length_buf = 0\<rparr>"

text \<open>The occupied bytes, \<open>buf.data.subarray(0, buf.length)\<close>.\<close>

definition occupied :: "DynBuf \<Rightarrow> Buffer" where
  "occupied buf = subarray (data buf) 0 (int (length_buf buf))"

section \<open>Request parsing\<close>

text \<open>\<open>type HTTPReq\<close>; its field \<open>method\<close> is \<open>method_req\<close> here.\<close>

record HTTPReq =
  method_req :: string
  uri :: Buffer
  version :: string
  headers :: "Buffer list"

definition kMaxHeaderLen :: nat where
  "kMaxHeaderLen = 8 * 1024"

definition splitLines :: "Buffer \<Rightarrow> Buffer list" where
  "splitLines d = split CRLF d"

definition parseRequestLine :: "Buffer \<Rightarrow> Error + (string \<times> Buffer \<times> string)" where
  "parseRequestLine line =
     (case split '' '' line of
        [meth, rawUri, protocol] \<Rightarrow>
          if \<not> startsWith protocol ''HTTP/'' then Inl (HTTPError 400 ''Bad version'')
          else (case splitLimit ''/'' 2 protocol of
                  [_, ver] \<Rightarrow> if ver = [] then Inl (HTTPError 400 ''Bad version'')
                               else Inr (meth, rawUri, ver)
                | _ \<Rightarrow> Inl (HTTPError 400 ''Bad version''))
      | _ \<Rightarrow> Inl (HTTPError 400 ''Bad request line''))"

definition validateHeader :: "Buffer \<Rightarrow> bool" where
  "validateHeader h = (if length h = 0 then True else CHR '':'' \<in> set h)"

text \<open>The \<open>for\<close> loop of \<open>parseHTTPReq\<close> over \<open>lines.slice(1, -1)\<close>, with the headers
  collected so far.\<close>

fun headerLoop :: "Buffer list \<Rightarrow> Buffer list \<Rightarrow> Error + Buffer list" where
  "headerLoop hs [] = Inr hs"
| "headerLoop hs (h # ls) =
     (if length h = 0 then headerLoop hs ls
      else if \<not> validateHeader h then Inl (HTTPError 400 ''Invalid header field'')
      else headerLoop (hs @ [h]) ls)"

definition parseHTTPReq :: "Buffer \<Rightarrow> Error + HTTPReq" where
  "parseHTTPReq d =
     (case splitLines d of
        [] \<Rightarrow> Inl (HTTPError 400 ''Missing request line'')
      | requestLine # rest \<Rightarrow>
          (case parseRequestLine requestLine of
             Inl e \<Rightarrow> Inl e
           | Inr (m, u, v) \<Rightarrow>
               (case headerLoop [] (butlast rest) of
                  Inl e \<Rightarrow> Inl e
                | Inr hs \<Rightarrow> Inr \<lparr>method_req = m, uri = u, version = v, headers = hs\<rparr>)))"

text \<open>\<open>cutMessage\<close> returns the request (or \<open>None\<close> for \<open>null\<close>) and the buffer as it
  leaves it, or the error thrown; a throw comes before \<open>bufPop\<close> and leaves the buffer
  as it was.\<close>

definition cutMessage :: "DynBuf \<Rightarrow> Error + (HTTPReq option \<times> DynBuf)" where
  "cutMessage buf =
     (case indexOf CRLFCRLF (subarray (data buf) 0 (int (length_buf buf))) of
        None \<Rightarrow>
          if kMaxHeaderLen \<le> length_buf buf then Inl (HTTPError 413 ''Header too large'')
          else Inr (None, buf)
      | Some idx \<Rightarrow>
          (case parseHTTPReq (subarray (data buf) 0 (int (idx + 4))) of
             Inl e \<Rightarrow> Inl e
           | Inr msg \<Rightarrow> Inr (Some msg, bufPop buf (int (idx + 4)))))"

section \<open>The connection: promises over socket events\<close>

text \<open>
  The socket is the environment. \<open>incoming\<close> holds the events it will emit, in order;
  \<open>writeResults\<close> holds what the callbacks of the coming \<open>socket.write\<close> calls will get
  (\<open>None\<close> for success, also once the list is used up); \<open>written\<close> records every
  buffer handed to \<open>socket.write\<close>; \<open>flowing\<close> is false while the socket is paused.
\<close>

datatype SockEvent = Data Buffer | End | Err Error

record Socket =
  incoming :: "SockEvent list"
  writeResults :: "Error option list"
  written :: "Buffer list"
  flowing :: bool

text \<open>\<open>type TCPConn\<close>; \<open>reader\<close> tells whether a pending read has left its
  \<open>resolve\<close> and \<open>reject\<close> in the field.\<close>

record TCPConn =
  socket :: Socket
  err :: "Error option"
  ended :: bool
  reader :: bool

definition soInit :: "Socket \<Rightarrow> TCPConn" where
  "soInit sock = \<lparr>socket = sock, err = None, ended = False, reader = False\<rparr>"

text \<open>The three handlers that \<open>soInit\<close> registers. Each returns the connection and how
  it settles the pending read, if it does.\<close>

definition onData :: "TCPConn \<Rightarrow> Buffer \<Rightarrow> TCPConn \<times> Buffer Promise option" where
  "onData conn d =
     (if \<not> reader conn then (conn, None)
      else (conn\<lparr>socket := (socket conn)\<lparr>flowing := False\<rparr>, reader := False\<rparr>,
            Some (Resolved d)))"

definition onEnd :: "TCPConn \<Rightarrow> TCPConn \<times> Buffer Promise option" where
  "onEnd conn =
     (let c = conn\<lparr>ended := True\<rparr>
      in if reader c then (c\<lparr>reader := False\<rparr>, Some (Resolved [])) else (c, None))"

definition onError :: "TCPConn \<Rightarrow> Error \<Rightarrow> TCPConn \<times> Buffer Promise option" where
  "onError conn e =
     (let c = conn\<lparr>err := Some e\<rparr>
      in if reader c then (c\<lparr>reader := False\<rparr>, Some (Rejected e)) else (c, None))"

definition emit :: "TCPConn \<Rightarrow> SockEvent \<Rightarrow> TCPConn \<times> Buffer Promise option" where
  "emit conn ev = (case ev of Data d \<Rightarrow> onData conn d | End \<Rightarrow> onEnd conn | Err e \<Rightarrow> onError conn e)"

text \<open>Awaiting a read that has been armed: the socket emits its events until a handler
  settles the promise; with no event left the promise stays pending.\<close>

fun settle :: "SockEvent list \<Rightarrow> TCPConn \<Rightarrow> Buffer Promise \<times> TCPConn" where
  "settle [] conn = (Pending, conn\<lparr>socket := (socket conn)\<lparr>incoming := []\<rparr>\<rparr>)"
| "settle (ev # evs) conn =
     (case emit conn ev of
        (c, Some p) \<Rightarrow> (p, c\<lparr>socket := (socket c)\<lparr>incoming := evs\<rparr>\<rparr>)
      | (c, None) \<Rightarrow> settle evs c)"

definition soRead :: "TCPConn \<Rightarrow> Buffer Promise \<times> TCPConn" where
  "soRead conn =
     (if ended conn then (Resolved [], conn)
      else case err conn of
             Some e \<Rightarrow> (Rejected e, conn)
           | None \<Rightarrow>
               settle (incoming (socket conn))
                 (conn\<lparr>reader := True, socket := (socket conn)\<lparr>flowing := True\<rparr>\<rparr>))"

definition soWrite :: "TCPConn \<Rightarrow> Buffer \<Rightarrow> unit Promise \<times> TCPConn" where
  "soWrite conn d =
     (let s = (socket conn)\<lparr>written := written (socket conn) @ [d]\<rparr>
      in case writeResults s of
           [] \<Rightarrow> (Resolved (), conn\<lparr>socket := s\<rparr>)
         | r # rs \<Rightarrow>
             ((case r of None \<Rightarrow> Resolved () | Some e \<Rightarrow> Rejected e),
              conn\<lparr>socket := s\<lparr>writeResults := rs\<rparr>\<rparr>))"

section \<open>Body readers\<close>

text \<open>\<open>type BodyReader = { length: number; read: () => Promise<Buffer> }\<close>. The closure
  behind \<open>read\<close> is its captured variable: \<open>data\<close> and \<open>done\<close> for \<open>readerFromMemory\<close>,
  \<open>remain\<close> for \<open>readerFromConnLength\<close>. The connection and the buffer that the second
  closure shares with the server loop are passed to \<open>read\<close> and returned by it.\<close>

datatype ReaderState = Memory Buffer bool | ConnLength int

record BodyReader =
  length_rd :: int
  state_rd :: ReaderState

text \<open>The \<open>for\<close> loop of \<open>fieldGet\<close> over the header lines, with the key in lower
  case.\<close>

fun fieldLoop :: "string \<Rightarrow> Buffer list \<Rightarrow> Buffer option" where
  "fieldLoop lowerKey [] = None"
| "fieldLoop lowerKey (h # hs) =
     (case indexOf '':'' h of
        None \<Rightarrow> fieldLoop lowerKey hs
      | Some idx \<Rightarrow>
          if toLowerCase (trim (take idx h)) = lowerKey then Some (trim (drop (idx + 1) h))
          else fieldLoop lowerKey hs)"

definition fieldGet :: "Buffer list \<Rightarrow> string \<Rightarrow> Buffer option" where
  "fieldGet hs key = fieldLoop (toLowerCase key) hs"

definition readerFromMemory :: "Buffer \<Rightarrow> BodyReader" where
  "readerFromMemory d = \<lparr>length_rd = int (length d), state_rd = Memory d False\<rparr>"

definition readerFromConnLength :: "int \<Rightarrow> BodyReader" where
  "readerFromConnLength remain = \<lparr>length_rd = remain, state_rd = ConnLength remain\<rparr>"

text \<open>The \<open>read\<close> closure of \<open>readerFromMemory\<close>.\<close>

definition readMemory :: "Buffer \<Rightarrow> bool \<Rightarrow> Buffer Promise \<times> ReaderState" where
  "readMemory d done = (if done then (Resolved [], Memory d done) else (Resolved d, Memory d True))"

text \<open>Lines 206 to 210, the refill inside the \<open>read\<close> closure of
  \<open>readerFromConnLength\<close>: with an empty buffer one \<open>soRead\<close> is awaited and its data
  pushed; an empty chunk then throws.\<close>

definition refill :: "TCPConn \<times> DynBuf \<Rightarrow> unit Promise \<times> TCPConn \<times> DynBuf" where
  "refill w =
     (if length_buf (snd w) = 0
      then (case soRead (fst w) of
              (Resolved d, c) \<Rightarrow>
                ((if length d = 0 then Rejected (Error ''Unexpected EOF'') else Resolved ()),
                 c, bufPush (snd w) d)
            | (Rejected e, c) \<Rightarrow> (Rejected e, c, snd w)
            | (Pending, c) \<Rightarrow> (Pending, c, snd w))
      else (Resolved (), w))"

text \<open>The \<open>read\<close> closure of \<open>readerFromConnLength\<close>, on the current \<open>remain\<close>.\<close>

definition readConnLength :: "int \<Rightarrow> TCPConn \<times> DynBuf \<Rightarrow> Buffer Promise \<times> int \<times> TCPConn \<times> DynBuf" where
  "readConnLength remain w =
     (if remain = 0 then (Resolved [], remain, w)
      else (case refill w of
              (Rejected e, w1) \<Rightarrow> (Rejected e, remain, w1)
            | (Pending, w1) \<Rightarrow> (Pending, remain, w1)
            | (Resolved u, conn1, buf1) \<Rightarrow>
                (let consume = min (int (length_buf buf1)) remain
                 in (Resolved (subarray (data buf1) 0 consume), remain - consume,
                     conn1, bufPop buf1 consume))))"

text \<open>\<open>rd.read()\<close>: the call goes to the closure the reader was built with.\<close>

definition read :: "BodyReader \<Rightarrow> TCPConn \<times> DynBuf \<Rightarrow> Buffer Promise \<times> BodyReader \<times> TCPConn \<times> DynBuf" where
  "read rd w =
     (case state_rd rd of
        Memory d done \<Rightarrow>
          (case readMemory d done of (r, st) \<Rightarrow> (r, rd\<lparr>state_rd := st\<rparr>, w))
      | ConnLength remain \<Rightarrow>
          (case readConnLength remain w of
             (r, remain1, w1) \<Rightarrow> (r, rd\<lparr>state_rd := ConnLength remain1\<rparr>, w1)))"

definition readerFromReq :: "HTTPReq \<Rightarrow> Error + BodyReader" where
  "readerFromReq req =
     (let contentLen = fieldGet (headers req) ''Content-Length'';
          chunked = (fieldGet (headers req) ''Transfer-Encoding'' = Some ''chunked'');
          bodyAllowed = (\<not> (method_req req = ''GET'' \<or> method_req req = ''HEAD''))
      in if \<not> bodyAllowed then Inr (readerFromMemory [])
         else case contentLen of
                Some v \<Rightarrow>
                  (case parseInt v of
                     None \<Rightarrow> Inl (HTTPError 400 ''Bad Content-Length'')
                   | Some bodyLen \<Rightarrow> Inr (readerFromConnLength bodyLen))
              | None \<Rightarrow>
                  if chunked then Inr (readerFromMemory [])
                  else Inr (readerFromMemory []))"

section \<open>Response writer\<close>

text \<open>\<open>type HTTPRes = { code; headers; body }\<close>; the header field is \<open>headers_res\<close>
  here, \<open>headers\<close> being the field of the request.\<close>

record HTTPRes =
  code :: nat
  headers_res :: "Buffer list"
  body :: BodyReader

definition encodeHTTPResp :: "HTTPRes \<Rightarrow> Buffer" where
  "encodeHTTPResp res =
     join CRLF ([''HTTP/1.1 '' @ showNat (code res) @ '' OK''] @ headers_res res @ [CRLF])"

text \<open>The size of what a reader may still do: the \<open>while (true)\<close> loops over \<open>read\<close>
  stop, since every chunk that is not empty makes it smaller.\<close>

definition readerSize :: "BodyReader \<Rightarrow> nat" where
  "readerSize rd =
     (case state_rd rd of
        Memory d done \<Rightarrow> (if done then 0 else 1)
      | ConnLength remain \<Rightarrow> nat \<bar>remain\<bar>)"

text \<open>The loop of \<open>writeHTTPResp\<close>, lines 255 to 259. It returns how the promise of
  \<open>writeHTTPResp\<close> settles, and the reader, connection and buffer as they are then.\<close>

function writeBody :: "BodyReader \<Rightarrow> TCPConn \<times> DynBuf \<Rightarrow> unit Promise \<times> BodyReader \<times> TCPConn \<times> DynBuf" where
  "writeBody rd w =
     (case read rd w of
        (Rejected e, rd1, w1) \<Rightarrow> (Rejected e, rd1, w1)
      | (Pending, rd1, w1) \<Rightarrow> (Pending, rd1, w1)
      | (Resolved d, rd1, conn1, buf1) \<Rightarrow>
          if length d = 0 then (Resolved (), rd1, conn1, buf1)
          else (case soWrite conn1 d of
                  (Rejected e, conn2) \<Rightarrow> (Rejected e, rd1, conn2, buf1)
                | (Pending, conn2) \<Rightarrow> (Pending, rd1, conn2, buf1)
                | (Resolved u, conn2) \<Rightarrow> writeBody rd1 (conn2, buf1)))"
  by pat_completeness auto
termination
proof (relation "measure (\<lambda>(rd, w). readerSize rd)", goal_cases)
  case 1
  show ?case by simp
next
  case (2 rd w x y d rd1 ya conn1 buf1 xc conn2 u)
  then have r: "read rd w = (Resolved d, rd1, conn1, buf1)" and ne: "d \<noteq> []"
    by auto
  have "readerSize rd1 < readerSize rd"
  proof (cases "state_rd rd")
    case (Memory m dn)
    with r ne show ?thesis
      by (auto simp: read_def readMemory_def readerSize_def split: if_splits)
  next
    case (ConnLength remain)
    from r ConnLength have nz: "remain \<noteq> 0"
      using ne by (auto simp: read_def readConnLength_def split: if_splits)
    from r ConnLength nz obtain u0 c1 b1 where
      rf: "refill w = (Resolved u0, c1, b1)" and
      rd1: "rd1 = rd\<lparr>state_rd := ConnLength (remain - min (int (length_buf b1)) remain)\<rparr>"
      by (auto simp: read_def readConnLength_def Let_def split: prod.splits Promise.splits)
    have pos: "0 < length_buf b1"
      using rf
      by (auto simp: refill_def bufPush_def Let_def split: if_splits prod.splits Promise.splits)
    show ?thesis
      using rd1 ConnLength nz pos by (auto simp: readerSize_def min_def)
  qed
  then show ?case
    by simp
qed

declare writeBody.simps [simp del]

text \<open>\<open>writeHTTPResp\<close> pushes onto \<open>res.headers\<close>, so the response it leaves behind is
  part of the result.\<close>

definition writeHTTPResp :: "TCPConn \<times> DynBuf \<Rightarrow> HTTPRes \<Rightarrow> unit Promise \<times> HTTPRes \<times> TCPConn \<times> DynBuf" where
  "writeHTTPResp w res =
     (if length_rd (body res) < 0 then (Rejected (Error ''TODO: chunked encoding''), res, w)
      else
        (let res1 = res\<lparr>headers_res :=
                      headers_res res @ [''Content-Length: '' @ showInt (length_rd (body res))]\<rparr>;
             header = encodeHTTPResp res1
         in case soWrite (fst w) header of
              (Rejected e, conn1) \<Rightarrow> (Rejected e, res1, conn1, snd w)
            | (Pending, conn1) \<Rightarrow> (Pending, res1, conn1, snd w)
            | (Resolved u, conn1) \<Rightarrow>
                (case writeBody (body res1) (conn1, snd w) of
                   (r, rd, w1) \<Rightarrow> (r, res1\<lparr>body := rd\<rparr>, w1))))"

section \<open>Request handler and server loop\<close>

text \<open>For \<open>/echo\<close> the response body is the request's reader itself, the same object;
  every other target gets a fresh in-memory reader.\<close>

definition handleReq :: "HTTPReq \<Rightarrow> BodyReader \<Rightarrow> HTTPRes" where
  "handleReq req reqBody =
     \<lparr>code = 200,
      headers_res = [''Server: my_first_http_server''],
      body = (if uri req = ''/echo'' then reqBody else readerFromMemory (''hello world.'' @ [LF]))\<rparr>"

text \<open>Line 311, \<open>while ((await reqBody.read()).length > 0) {}\<close>.\<close>

function drain :: "BodyReader \<Rightarrow> TCPConn \<times> DynBuf \<Rightarrow> unit Promise \<times> BodyReader \<times> TCPConn \<times> DynBuf" where
  "drain rd w =
     (case read rd w of
        (Rejected e, rd1, w1) \<Rightarrow> (Rejected e, rd1, w1)
      | (Pending, rd1, w1) \<Rightarrow> (Pending, rd1, w1)
      | (Resolved d, rd1, w1) \<Rightarrow>
          if 0 < length d then drain rd1 w1 else (Resolved (), rd1, w1))"
  by pat_completeness auto
termination
proof (relation "measure (\<lambda>(rd, w). readerSize rd)", goal_cases)
  case 1
  show ?case by simp
next
  case (2 rd w x y d rd1 w1)
  then have r: "read rd w = (Resolved d, rd1, w1)" and ne: "d \<noteq> []"
    by auto
  have "readerSize rd1 < readerSize rd"
  proof (cases "state_rd rd")
    case (Memory m dn)
    with r ne show ?thesis
      by (auto simp: read_def readMemory_def readerSize_def split: if_splits)
  next
    case (ConnLength remain)
    from r ConnLength have nz: "remain \<noteq> 0"
      using ne by (auto simp: read_def readConnLength_def split: if_splits)
    from r ConnLength nz obtain u0 c1 b1 where
      rf: "refill w = (Resolved u0, c1, b1)" and
      rd1: "rd1 = rd\<lparr>state_rd := ConnLength (remain - min (int (length_buf b1)) remain)\<rparr>"
      by (auto simp: read_def readConnLength_def Let_def split: prod.splits Promise.splits)
    have pos: "0 < length_buf b1"
      using rf
      by (auto simp: refill_def bufPush_def Let_def split: if_splits prod.splits Promise.splits)
    show ?thesis
      using rd1 ConnLength nz pos by (auto simp: readerSize_def min_def)
  qed
  then show ?case
    by simp
qed

declare drain.simps [simp del]

text \<open>How a run of \<open>serveClient\<close> ends: it returns, it throws, or it awaits a promise
  that never settles. The outer \<open>while (true)\<close> has no bound of its own, so the model
  counts its iterations; \<open>OutOfFuel\<close> says that the count given was used up.\<close>

datatype Outcome = Returned | Threw Error | Hung | OutOfFuel

text \<open>One iteration of the loop of \<open>serveClient\<close> per unit of fuel. After the response
  is written the body left to skip is read through \<open>reqBody\<close>; for \<open>/echo\<close> that is the
  reader the writer has just advanced.\<close>

fun serveLoop :: "nat \<Rightarrow> TCPConn \<times> DynBuf \<Rightarrow> Outcome \<times> TCPConn \<times> DynBuf" where
  "serveLoop 0 w = (OutOfFuel, w)"
| "serveLoop (Suc n) w =
     (case cutMessage (snd w) of
        Inl e \<Rightarrow> (Threw e, w)
      | Inr (None, buf0) \<Rightarrow>
          (case soRead (fst w) of
             (Rejected e, conn1) \<Rightarrow> (Threw e, conn1, buf0)
           | (Pending, conn1) \<Rightarrow> (Hung, conn1, buf0)
           | (Resolved d, conn1) \<Rightarrow>
               (let buf1 = bufPush buf0 d
                in if length d = 0 \<and> length_buf buf1 = 0 then (Returned, conn1, buf1)
                   else if length d = 0 then (Threw (HTTPError 400 ''Unexpected EOF''), conn1, buf1)
                   else serveLoop n (conn1, buf1)))
      | Inr (Some msg, buf0) \<Rightarrow>
          (case readerFromReq msg of
             Inl e \<Rightarrow> (Threw e, fst w, buf0)
           | Inr reqBody \<Rightarrow>
               (case writeHTTPResp (fst w, buf0) (handleReq msg reqBody) of
                  (Rejected e, res1, w1) \<Rightarrow> (Threw e, w1)
                | (Pending, res1, w1) \<Rightarrow> (Hung, w1)
                | (Resolved u, res1, w1) \<Rightarrow>
                    if version msg = ''1.0'' then (Returned, w1)
                    else (case drain (if uri msg = ''/echo'' then body res1 else reqBody) w1 of
                            (Rejected e, rd, w2) \<Rightarrow> (Threw e, w2)
                          | (Pending, rd, w2) \<Rightarrow> (Hung, w2)
                          | (Resolved u, rd, w2) \<Rightarrow> serveLoop n w2))))"

definition serveClient :: "nat \<Rightarrow> TCPConn \<Rightarrow> Outcome \<times> TCPConn \<times> DynBuf" where
  "serveClient fuel conn = serveLoop fuel (conn, emptyBuf)"

section \<open>Sequences of buffer operations\<close>

text \<open>An append is \<open>bufPush\<close>, a consume is \<open>bufPop\<close>. \<open>opsValid\<close> says that every
  consume takes at most the length the buffer has at that moment; \<open>appended\<close> and
  \<open>consumed\<close> are the bytes appended and the number of bytes consumed by a sequence.\<close>

datatype BufOp = Append Buffer | Consume nat

fun applyOp :: "DynBuf \<Rightarrow> BufOp \<Rightarrow> DynBuf" where
  "applyOp buf (Append d) = bufPush buf d"
| "applyOp buf (Consume n) = bufPop buf (int n)"

fun runOps :: "DynBuf \<Rightarrow> BufOp list \<Rightarrow> DynBuf" where
  "runOps buf [] = buf"
| "runOps buf (x # ops) = runOps (applyOp buf x) ops"

fun opsValid :: "DynBuf \<Rightarrow> BufOp list \<Rightarrow> bool" where
  "opsValid buf [] = True"
| "opsValid buf (Append d # ops) = opsValid (bufPush buf d) ops"
| "opsValid buf (Consume n # ops) = (n \<le> length_buf buf \<and> opsValid (bufPop buf (int n)) ops)"

fun appended :: "BufOp list \<Rightarrow> Buffer" where
  "appended [] = []"
| "appended (Append d # ops) = d @ appended ops"
| "appended (Consume n # ops) = appended ops"

fun consumed :: "BufOp list \<Rightarrow> nat" where
  "consumed [] = 0"
| "consumed (Append d # ops) = consumed ops"
| "consumed (Consume n # ops) = n + consumed ops"

text \<open>The invariant of the buffer: the length field is within the capacity.\<close>

definition wfBuf :: "DynBuf \<Rightarrow> bool" where
  "wfBuf buf = (length_buf buf \<le> length (data buf))"

section \<open>Feeding a byte stream to the framer\<close>

text \<open>\<open>feedChunks\<close> is the head of the loop of \<open>serveClient\<close> with the chunks taken
  from a list: \<open>cutMessage\<close> is called, and while it returns \<open>null\<close> the next chunk is
  pushed and it is called again. \<open>feedWhole\<close> pushes all bytes at once and calls
  \<open>cutMessage\<close> once. Both return what the framer yields: the error thrown, the
  request, or \<open>None\<close> when the chunks are used up first.\<close>

fun feedChunks :: "DynBuf \<Rightarrow> Buffer list \<Rightarrow> Error + HTTPReq option" where
  "feedChunks buf [] = (case cutMessage buf of Inl e \<Rightarrow> Inl e | Inr (r, b) \<Rightarrow> Inr r)"
| "feedChunks buf (c # cs) =
     (case cutMessage buf of
        Inl e \<Rightarrow> Inl e
      | Inr (Some msg, b) \<Rightarrow> Inr (Some msg)
      | Inr (None, b) \<Rightarrow> feedChunks (bufPush b c) cs)"

definition feedWhole :: "Buffer \<Rightarrow> Error + HTTPReq option" where
  "feedWhole s = (case cutMessage (bufPush emptyBuf s) of Inl e \<Rightarrow> Inl e | Inr (r, b) \<Rightarrow> Inr r)"

section \<open>Successive reads\<close>

text \<open>\<open>n\<close> calls of \<open>soRead\<close>, each awaited before the next, with how each one settled.\<close>

fun soReads :: "nat \<Rightarrow> TCPConn \<Rightarrow> Buffer Promise list \<times> TCPConn" where
  "soReads 0 conn = ([], conn)"
| "soReads (Suc n) conn =
     (case soRead conn of (r, c1) \<Rightarrow> (case soReads n c1 of (rs, c2) \<Rightarrow> (r # rs, c2)))"

text \<open>\<open>k\<close> calls of \<open>read\<close> on a body reader, each awaited before the next, with how
  each one settled, and the number of bytes that the resolved ones yielded in all.\<close>

fun readMany :: "nat \<Rightarrow> BodyReader \<Rightarrow> TCPConn \<times> DynBuf \<Rightarrow> Buffer Promise list \<times> BodyReader \<times> TCPConn \<times> DynBuf" where
  "readMany 0 rd w = ([], rd, w)"
| "readMany (Suc k) rd w =
     (case read rd w of
        (r, rd1, w1) \<Rightarrow> (case readMany k rd1 w1 of (rs, rd2, w2) \<Rightarrow> (r # rs, rd2, w2)))"

fun yielded :: "Buffer Promise list \<Rightarrow> nat" where
  "yielded [] = 0"
| "yielded (Resolved d # rs) = length d + yielded rs"
| "yielded (Rejected e # rs) = yielded rs"
| "yielded (Pending # rs) = yielded rs"

section \<open>The body loop of the writer, as a relation\<close>

text \<open>\<open>bodyRun rd w ds fin\<close>: starting with reader \<open>rd\<close> in state \<open>w\<close>, the reads resolve
  with the chunks \<open>ds\<close>, none of them empty, each one is written and its write
  succeeds, then one more read resolves with the empty chunk and leaves the reader and
  the state \<open>fin\<close>.\<close>

inductive bodyRun :: "BodyReader \<Rightarrow> TCPConn \<times> DynBuf \<Rightarrow> Buffer list \<Rightarrow> BodyReader \<times> TCPConn \<times> DynBuf \<Rightarrow> bool" where
  stop: "read rd w = (Resolved [], fin) \<Longrightarrow> bodyRun rd w [] fin"
| step: "read rd w = (Resolved d, rd1, conn1, buf1) \<Longrightarrow> d \<noteq> [] \<Longrightarrow>
         soWrite conn1 d = (Resolved (), conn2) \<Longrightarrow>
         bodyRun rd1 (conn2, buf1) ds fin \<Longrightarrow> bodyRun rd w (d # ds) fin"

code_pred bodyRun .

text \<open>The bytes of a response head: status line, header lines and the blank line, each
  ended by CRLF.\<close>

definition headBytes :: "nat \<Rightarrow> Buffer list \<Rightarrow> Buffer" where
  "headBytes c hs =
     ''HTTP/1.1 '' @ showNat c @ '' OK'' @ CRLF @ concat (map (\<lambda>h. h @ CRLF) hs) @ CRLF"

definition contentLengthLine :: "int \<Rightarrow> Buffer" where
  "contentLengthLine n = ''Content-Length: '' @ showInt n"

section \<open>Properties of the dynamic buffer\<close>

lemma relIndex_nat [simp]: "relIndex n (int k) = min k n"
  by (simp add: relIndex_def)

lemma relIndex_0 [simp]: "relIndex n 0 = 0"
  by (simp add: relIndex_def)

lemma relIndex_le: "relIndex n k \<le> n"
  by (cases "k < 0") (auto simp: relIndex_def)

lemma subarray_0_nat: "subarray xs 0 (int n) = take n xs"
  by (simp add: subarray_def Let_def min_def)

lemma occupied_take: "occupied buf = take (length_buf buf) (data buf)"
  by (simp add: occupied_def subarray_0_nat)

text \<open>For a positive capacity \<open>growCap\<close> is the loop of \<open>bufPush\<close> as it is written.\<close>

lemma growCap_loop:
  "0 < cap \<Longrightarrow> growCap cap newLen = (if cap < newLen then growCap (cap * 2) newLen else cap)"
  by (simp add: growCap.simps [of cap newLen])

lemma growCap_ge: "0 < cap \<Longrightarrow> newLen \<le> growCap cap newLen"
proof (induction cap newLen rule: growCap.induct)
  case (1 cap newLen)
  then show ?case
    by (cases "cap < newLen") (simp_all add: growCap.simps [of cap newLen])
qed

lemma length_copy [simp]: "length (copy src tgt t s e) = length tgt"
  by (auto simp: copy_def Let_def)

lemma length_bufPush [simp]: "length_buf (bufPush buf d) = length_buf buf + length d"
  by (simp add: bufPush_def Let_def)

lemma wfBuf_bufPush: "wfBuf (bufPush buf d)"
proof -
  have "length_buf buf + length d \<le> growCap (max (length (data buf)) 32) (length_buf buf + length d)"
    by (rule growCap_ge) simp
  then show ?thesis
    by (auto simp: wfBuf_def bufPush_def Let_def)
qed

lemma copy_from_start:
  assumes "t + length src \<le> length tgt"
  shows "copy src tgt t 0 (length src) = take t tgt @ src @ drop (t + length src) tgt"
proof (cases "src = []")
  case True
  then show ?thesis by (simp add: copy_def)
next
  case False
  with assms have "t < length tgt" by (cases src) auto
  moreover from assms have "min (min (length src) (length tgt - t)) (length src) = length src"
    by simp
  ultimately show ?thesis using False
    by (simp add: copy_def Let_def)
qed

lemma copy_prefix:
  assumes "n \<le> length src" "n \<le> length tgt"
  shows "copy src tgt 0 0 n = take n src @ drop n tgt"
proof (cases "n = 0")
  case True
  then show ?thesis by (simp add: copy_def)
next
  case False
  with assms have "0 < length tgt" by (cases tgt) auto
  moreover from assms have "min (min n (length tgt)) (length src) = n"
    by simp
  ultimately show ?thesis using False
    by (simp add: copy_def Let_def)
qed

lemma data_bufPush_grow:
  assumes "length (data buf) < length_buf buf + length d" "wfBuf buf"
  shows "take (length_buf buf + length d) (data (bufPush buf d)) = take (length_buf buf) (data buf) @ d"
proof -
  let ?n = "length_buf buf + length d"
  let ?cap = "growCap (max (length (data buf)) 32) ?n"
  let ?grown = "replicate ?cap (CHR 0x00)"
  let ?g1 = "copy (data buf) ?grown 0 0 (length_buf buf)"
  have cap: "?n \<le> ?cap" by (rule growCap_ge) simp
  from assms have len: "length_buf buf \<le> length (data buf)" by (simp add: wfBuf_def)
  have g1: "?g1 = take (length_buf buf) (data buf) @ drop (length_buf buf) ?grown"
    using len cap by (intro copy_prefix) simp_all
  have "data (bufPush buf d) = copy d ?g1 (length_buf buf) 0 (length d)"
    using assms(1) by (simp add: bufPush_def Let_def)
  also have "\<dots> = take (length_buf buf) ?g1 @ d @ drop (length_buf buf + length d) ?g1"
    using cap by (intro copy_from_start) simp
  finally show ?thesis
    using len by (simp add: g1)
qed

lemma data_bufPush_fit:
  assumes "\<not> length (data buf) < length_buf buf + length d"
  shows "take (length_buf buf + length d) (data (bufPush buf d)) = take (length_buf buf) (data buf) @ d"
proof -
  have "data (bufPush buf d) = copy d (data buf) (length_buf buf) 0 (length d)"
    using assms by (simp add: bufPush_def Let_def)
  also have "\<dots> = take (length_buf buf) (data buf) @ d @ drop (length_buf buf + length d) (data buf)"
    using assms by (intro copy_from_start) simp
  finally show ?thesis
    using assms by simp
qed

lemma occupied_bufPush: "wfBuf buf \<Longrightarrow> occupied (bufPush buf d) = occupied buf @ d"
  using data_bufPush_grow [of buf d] data_bufPush_fit [of buf d]
  by (cases "length (data buf) < length_buf buf + length d") (simp_all add: occupied_take)

lemma length_bufPop [simp]: "length_buf (bufPop buf len) = nat (int (length_buf buf) - len)"
  by (simp add: bufPop_def)

lemma length_copyWithin [simp]: "length (copyWithin xs t s e) = length xs"
proof -
  define n where "n = length xs"
  define to where "to = relIndex n t"
  define frm where "frm = relIndex n s"
  define count where "count = min (relIndex n e - frm) (n - to)"
  have "to \<le> n" "frm \<le> n" "relIndex n e \<le> n"
    by (simp_all add: to_def frm_def relIndex_le)
  then have "to + count \<le> n" "frm + count \<le> n"
    by (simp_all add: count_def)
  then have L: "length (take to xs @ take count (drop frm xs) @ drop (to + count) xs) = length xs"
    by (simp add: n_def)
  have eq: "copyWithin xs t s e =
      (if 0 < count then take to xs @ take count (drop frm xs) @ drop (to + count) xs else xs)"
    unfolding copyWithin_def Let_def n_def to_def frm_def count_def ..
  show ?thesis
    unfolding eq using L by (cases "0 < count") (simp_all only: if_True if_False)
qed

lemma wfBuf_bufPop: "wfBuf buf \<Longrightarrow> 0 \<le> len \<Longrightarrow> wfBuf (bufPop buf len)"
  by (simp add: wfBuf_def bufPop_def)

lemma copyWithin_shift:
  assumes "n \<le> m" "m \<le> length xs"
  shows "take (m - n) (copyWithin xs 0 (int n) (int m)) = drop n (take m xs)"
proof (cases "n < m")
  case True
  with assms have "min (min m (length xs) - min n (length xs)) (length xs) = m - n"
    by simp
  then show ?thesis
    using assms True by (simp add: copyWithin_def Let_def take_drop)
next
  case False
  with assms show ?thesis by simp
qed

lemma occupied_bufPop:
  assumes "wfBuf buf" "n \<le> length_buf buf"
  shows "occupied (bufPop buf (int n)) = drop n (occupied buf)"
proof -
  from assms have "length_buf buf \<le> length (data buf)" by (simp add: wfBuf_def)
  with assms(2) have "take (length_buf buf - n) (copyWithin (data buf) 0 (int n) (int (length_buf buf)))
      = drop n (take (length_buf buf) (data buf))"
    by (rule copyWithin_shift)
  moreover have "nat (int (length_buf buf) - int n) = length_buf buf - n"
    by simp
  ultimately show ?thesis
    by (simp add: occupied_take bufPop_def)
qed

lemma runOps_general:
  "wfBuf buf \<Longrightarrow> opsValid buf ops \<Longrightarrow>
     wfBuf (runOps buf ops) \<and>
     occupied (runOps buf ops) = drop (consumed ops) (occupied buf @ appended ops)"
proof (induction buf ops rule: opsValid.induct)
  case (1 buf)
  then show ?case by simp
next
  case (2 buf d ops)
  then show ?case
    by (simp add: wfBuf_bufPush occupied_bufPush)
next
  case (3 buf n ops)
  then have n: "n \<le> length (occupied buf)"
    by (simp add: occupied_take wfBuf_def)
  from 3 show ?case
    using n by (simp add: wfBuf_bufPop occupied_bufPop add.commute)
qed

text \<open>
  C8. Start from the empty buffer and run any sequence of appends and consumes in which
  every consume takes at most the occupied length of that moment. Then the length field
  is at most the capacity of the storage, and the occupied prefix is the concatenation
  of the appended bytes without its first \<open>consumed\<close> bytes. Every state on the way is
  the end state of a shorter sequence of the same kind, so the same holds there.
\<close>

theorem bufOps_invariant:
  "opsValid emptyBuf ops \<Longrightarrow>
     length_buf (runOps emptyBuf ops) \<le> length (data (runOps emptyBuf ops)) \<and>
     occupied (runOps emptyBuf ops) = drop (consumed ops) (appended ops)"
  using runOps_general [of emptyBuf ops]
  by (simp add: wfBuf_def emptyBuf_def occupied_take)

theorem bufOps_invariant_witness:
  "opsValid emptyBuf [Append ''hello'', Consume 2, Append ''xy'', Consume 1] \<and>
   length_buf (runOps emptyBuf [Append ''hello'', Consume 2, Append ''xy'', Consume 1]) \<le> 32 \<and>
   occupied (runOps emptyBuf [Append ''hello'', Consume 2, Append ''xy'', Consume 1]) = ''loxy''"
proof -
  have v: "opsValid emptyBuf [Append ''hello'', Consume 2, Append ''xy'', Consume 1]"
    by code_simp
  have c: "length (data (runOps emptyBuf [Append ''hello'', Consume 2, Append ''xy'', Consume 1])) = 32"
    by code_simp
  from bufOps_invariant [OF v] c v show ?thesis
    by simp
qed

section \<open>Properties of the framer\<close>

lemma indexOf_Some_iff:
  "pat \<noteq> [] \<Longrightarrow>
   indexOf pat xs = Some i \<longleftrightarrow>
     take (length pat) (drop i xs) = pat \<and> (\<forall>j<i. take (length pat) (drop j xs) \<noteq> pat)"
proof (induction xs arbitrary: i)
  case Nil
  then show ?case by auto
next
  case (Cons x xs)
  show ?case
  proof (cases "take (length pat) (x # xs) = pat")
    case True
    then show ?thesis
      by (cases i) (auto simp del: take_Suc_Cons)
  next
    case False
    show ?thesis
    proof (cases i)
      case 0
      with False show ?thesis by simp
    next
      case (Suc k)
      have "(\<forall>j<Suc k. take (length pat) (drop j (x # xs)) \<noteq> pat) \<longleftrightarrow>
            (\<forall>j<k. take (length pat) (drop j xs) \<noteq> pat)"
        using False by (auto simp: less_Suc_eq_0_disj)
      with False Suc Cons.IH [OF Cons.prems, of k] show ?thesis
        by simp
    qed
  qed
qed

lemma indexOf_None_iff:
  "pat \<noteq> [] \<Longrightarrow> indexOf pat xs = None \<longleftrightarrow> (\<forall>j. take (length pat) (drop j xs) \<noteq> pat)"
proof (induction xs)
  case Nil
  then show ?case by auto
next
  case (Cons x xs)
  have "(\<forall>j. take (length pat) (drop j (x # xs)) \<noteq> pat) \<longleftrightarrow>
        take (length pat) (x # xs) \<noteq> pat \<and> (\<forall>j. take (length pat) (drop j xs) \<noteq> pat)"
    (is "?l \<longleftrightarrow> ?r")
  proof
    assume l: ?l
    from l [rule_format, of 0] l show ?r
      by (auto dest: spec [where x = "Suc _"])
  next
    assume r: ?r
    show ?l
    proof
      fix j show "take (length pat) (drop j (x # xs)) \<noteq> pat"
        using r by (cases j) auto
    qed
  qed
  with Cons show ?case
    by simp
qed

lemma contains_iff:
  "(\<exists>pre suf. xs = pre @ pat @ suf) \<longleftrightarrow> (\<exists>j. take (length pat) (drop j xs) = pat)"
proof
  assume "\<exists>pre suf. xs = pre @ pat @ suf"
  then obtain pre suf where "xs = pre @ pat @ suf" by blast
  then have "take (length pat) (drop (length pre) xs) = pat" by simp
  then show "\<exists>j. take (length pat) (drop j xs) = pat" ..
next
  assume "\<exists>j. take (length pat) (drop j xs) = pat"
  then obtain j where a: "take (length pat) (drop j xs) = pat" ..
  have "xs = take j xs @ drop j xs" by simp
  also have "drop j xs = take (length pat) (drop j xs) @ drop (length pat) (drop j xs)"
    by (simp only: append_take_drop_id)
  finally have "xs = take j xs @ pat @ drop (length pat) (drop j xs)"
    using a by simp
  then show "\<exists>pre suf. xs = pre @ pat @ suf" by blast
qed

lemma indexOf_None_contains:
  "pat \<noteq> [] \<Longrightarrow> indexOf pat xs = None \<longleftrightarrow> \<not> (\<exists>pre suf. xs = pre @ pat @ suf)"
  by (simp add: indexOf_None_iff contains_iff)

lemma match_length: "pat \<noteq> [] \<Longrightarrow> take (length pat) (drop j xs) = pat \<Longrightarrow> j + length pat \<le> length xs"
proof -
  assume p: "pat \<noteq> []" and m: "take (length pat) (drop j xs) = pat"
  have "length (take (length pat) (drop j xs)) = min (length pat) (length xs - j)" by simp
  with m have "length pat \<le> length xs - j" by (metis min.cobounded2)
  with p show ?thesis by (cases pat) auto
qed

lemma match_append:
  "j + length pat \<le> length xs \<Longrightarrow> take (length pat) (drop j (xs @ ys)) = take (length pat) (drop j xs)"
  by simp

lemma indexOf_append_Some:
  assumes "pat \<noteq> []" "indexOf pat xs = Some i"
  shows "indexOf pat (xs @ ys) = Some i"
proof -
  from assms have m: "take (length pat) (drop i xs) = pat"
    and f: "\<forall>j<i. take (length pat) (drop j xs) \<noteq> pat"
    by (simp_all add: indexOf_Some_iff)
  from match_length [OF assms(1) m] have le: "i + length pat \<le> length xs" .
  have "take (length pat) (drop i (xs @ ys)) = pat"
    using m le by simp
  moreover have "\<forall>j<i. take (length pat) (drop j (xs @ ys)) \<noteq> pat"
  proof (intro allI impI)
    fix j assume "j < i"
    with le have "j + length pat \<le> length xs" by simp
    then have "take (length pat) (drop j (xs @ ys)) = take (length pat) (drop j xs)" by simp
    moreover from f \<open>j < i\<close> have "take (length pat) (drop j xs) \<noteq> pat" by blast
    ultimately show "take (length pat) (drop j (xs @ ys)) \<noteq> pat" by metis
  qed
  ultimately show ?thesis
    using assms(1) by (simp add: indexOf_Some_iff)
qed

lemma indexOf_append_None:
  assumes "pat \<noteq> []" "indexOf pat xs = None" "indexOf pat (xs @ ys) = Some i"
  shows "length xs < i + length pat"
proof (rule ccontr)
  assume "\<not> length xs < i + length pat"
  then have le: "i + length pat \<le> length xs" by simp
  from assms(1,3) have "take (length pat) (drop i (xs @ ys)) = pat"
    by (simp add: indexOf_Some_iff)
  with le have "take (length pat) (drop i xs) = pat" by simp
  with assms(1,2) show False by (simp add: indexOf_None_iff)
qed

lemma indexOf_le_occurrence:
  assumes "pat \<noteq> []" "xs = pre @ pat @ suf"
  shows "\<exists>i. indexOf pat xs = Some i \<and> i \<le> length pre"
proof -
  from assms(2) have m: "take (length pat) (drop (length pre) xs) = pat" by simp
  then have "indexOf pat xs \<noteq> None"
    using assms(1) by (auto simp: indexOf_None_iff)
  then obtain i where i: "indexOf pat xs = Some i" by blast
  with assms(1) have "\<forall>j<i. take (length pat) (drop j xs) \<noteq> pat"
    by (simp add: indexOf_Some_iff)
  with m have "\<not> length pre < i" by blast
  with i show ?thesis by simp
qed

lemma CRLFCRLF_length [simp]: "length CRLFCRLF = 4" "CRLFCRLF \<noteq> []"
  by (simp_all add: CRLFCRLF_def)

lemma cutMessage_found:
  assumes "wfBuf buf" "indexOf CRLFCRLF (occupied buf) = Some i"
  shows "cutMessage buf =
     (case parseHTTPReq (take (i + 4) (occupied buf)) of
        Inl e \<Rightarrow> Inl e
      | Inr msg \<Rightarrow> Inr (Some msg, bufPop buf (int (i + 4))))"
proof -
  from assms(2) have "take (length CRLFCRLF) (drop i (occupied buf)) = CRLFCRLF"
    by (simp add: indexOf_Some_iff)
  from match_length [OF _ this] have "i + 4 \<le> length (occupied buf)" by simp
  then have "i + 4 \<le> length_buf buf" by (simp add: occupied_take)
  then have "take (i + 4) (occupied buf) = subarray (data buf) 0 (int (i + 4))"
    by (simp only: occupied_take subarray_0_nat) (simp add: min_def)
  with assms(2) show ?thesis
    by (simp add: cutMessage_def occupied_def del: of_nat_add)
qed

lemma cutMessage_None:
  assumes "indexOf CRLFCRLF (occupied buf) = None"
  shows "cutMessage buf =
     (if kMaxHeaderLen \<le> length_buf buf then Inl (HTTPError 413 ''Header too large'')
      else Inr (None, buf))"
  using assms by (simp add: cutMessage_def occupied_def)

lemma length_occupied: "wfBuf buf \<Longrightarrow> length (occupied buf) = length_buf buf"
  by (simp add: occupied_take wfBuf_def)

lemma feedChunks_general:
  assumes "wfBuf buf" "indexOf CRLFCRLF (occupied buf @ concat chunks) = Some idx"
    "idx + 4 \<le> kMaxHeaderLen"
  shows "feedChunks buf chunks =
     (case parseHTTPReq (take (idx + 4) (occupied buf @ concat chunks)) of
        Inl e \<Rightarrow> Inl e | Inr msg \<Rightarrow> Inr (Some msg))"
  using assms
proof (induction chunks arbitrary: buf)
  case Nil
  then show ?case
    by (simp add: cutMessage_found split: sum.splits)
next
  case (Cons c cs)
  show ?case
  proof (cases "indexOf CRLFCRLF (occupied buf)")
    case None
    from indexOf_append_None [OF _ None Cons.prems(2)] Cons.prems(3)
    have "length (occupied buf) < kMaxHeaderLen" by simp
    with Cons.prems(1) have "cutMessage buf = Inr (None, buf)"
      by (simp add: cutMessage_None [OF None] length_occupied)
    moreover have "feedChunks (bufPush buf c) cs =
       (case parseHTTPReq (take (idx + 4) (occupied (bufPush buf c) @ concat cs)) of
          Inl e \<Rightarrow> Inl e | Inr msg \<Rightarrow> Inr (Some msg))"
      using Cons.prems by (intro Cons.IH) (simp_all add: wfBuf_bufPush occupied_bufPush)
    ultimately show ?thesis
      using Cons.prems(1) by (simp add: occupied_bufPush)
  next
    case (Some i)
    from indexOf_append_Some [OF _ Some, of "concat (c # cs)"] Cons.prems(2)
    have i: "i = idx" by simp
    from Some have "take (length CRLFCRLF) (drop i (occupied buf)) = CRLFCRLF"
      by (simp add: indexOf_Some_iff)
    from match_length [OF _ this] have "i + 4 \<le> length (occupied buf)" by simp
    then have "take (idx + 4) (occupied buf @ concat (c # cs)) = take (i + 4) (occupied buf)"
      using i by simp
    then show ?thesis
      using cutMessage_found [OF Cons.prems(1) Some]
      by (simp split: sum.splits)
  qed
qed

lemma feedWhole_eq:
  assumes "indexOf CRLFCRLF s = Some idx"
  shows "feedWhole s =
     (case parseHTTPReq (take (idx + 4) s) of Inl e \<Rightarrow> Inl e | Inr msg \<Rightarrow> Inr (Some msg))"
proof -
  have w: "wfBuf (bufPush emptyBuf s)" by (rule wfBuf_bufPush)
  have "wfBuf emptyBuf" by (simp add: wfBuf_def emptyBuf_def)
  then have o: "occupied (bufPush emptyBuf s) = s"
    by (simp add: occupied_bufPush) (simp add: occupied_take emptyBuf_def)
  show ?thesis
    using cutMessage_found [OF w, of idx] assms
    by (simp add: feedWhole_def o split: sum.splits)
qed

lemma indexOf_no_first:
  assumes "pat \<noteq> []" "hd pat \<notin> set xs"
  shows "indexOf pat xs = None"
proof -
  have "\<not> (\<exists>pre suf. xs = pre @ pat @ suf)"
  proof
    assume "\<exists>pre suf. xs = pre @ pat @ suf"
    then obtain pre suf where "xs = pre @ pat @ suf" by blast
    with assms(1) have "hd pat \<in> set xs" by (cases pat) auto
    with assms(2) show False ..
  qed
  with assms(1) show ?thesis by (simp add: indexOf_None_contains)
qed

lemma indexOf_after_prefix:
  assumes "pat \<noteq> []" "hd pat \<notin> set c"
  shows "indexOf pat (c @ pat @ suf) = Some (length c)"
proof -
  have "\<forall>j<length c. take (length pat) (drop j (c @ pat @ suf)) \<noteq> pat"
  proof (intro allI impI notI)
    fix j assume j: "j < length c" and m: "take (length pat) (drop j (c @ pat @ suf)) = pat"
    from j have d: "drop j (c @ pat @ suf) = c ! j # (drop (Suc j) c @ pat @ suf)"
      by (simp add: Cons_nth_drop_Suc)
    from m have "take (length pat) (c ! j # (drop (Suc j) c @ pat @ suf)) = pat"
      by (simp only: d)
    with assms(1) have "hd pat = c ! j" by (cases pat) auto
    with j assms(2) show False by simp
  qed
  then show ?thesis
    using assms(1) by (simp add: indexOf_Some_iff)
qed

lemma splitFrom_skip:
  "sep \<noteq> [] \<Longrightarrow> hd sep \<notin> set xs \<Longrightarrow> splitFrom sep cur (xs @ rest) = splitFrom sep (cur @ xs) rest"
proof (induction xs arbitrary: cur)
  case Nil
  then show ?case by simp
next
  case (Cons x xs)
  from Cons.prems have "take (length sep) (x # xs @ rest) \<noteq> sep"
    by (cases sep) auto
  with Cons show ?case by simp
qed

lemma splitFrom_sep:
  "sep \<noteq> [] \<Longrightarrow> splitFrom sep cur (sep @ rest) = cur # splitFrom sep [] rest"
  by (cases sep) simp_all

lemma splitFrom_token:
  "sep \<noteq> [] \<Longrightarrow> hd sep \<notin> set xs \<Longrightarrow>
     splitFrom sep cur (xs @ sep @ rest) = (cur @ xs) # splitFrom sep [] rest"
  by (simp add: splitFrom_skip splitFrom_sep)

lemma splitFrom_last:
  "sep \<noteq> [] \<Longrightarrow> hd sep \<notin> set xs \<Longrightarrow> splitFrom sep cur xs = [cur @ xs]"
  using splitFrom_skip [of sep xs cur "[]"] by simp

lemma parse_long_target:
  assumes "CR \<notin> set A" "CHR '' '' \<notin> set A"
  shows "parseHTTPReq (''GET /'' @ A @ '' HTTP/1.1'' @ CRLFCRLF) =
     Inr \<lparr>method_req = ''GET'', uri = ''/'' @ A, version = ''1.1'', headers = []\<rparr>"
proof -
  let ?line = "''GET /'' @ A @ '' HTTP/1.1''"
  have cr: "hd CRLF \<notin> set ?line"
    using assms(1) by (simp add: CRLF_def CR_def)
  have "''GET /'' @ A @ '' HTTP/1.1'' @ CRLFCRLF = ?line @ CRLF @ CRLF @ []"
    by (simp add: CRLFCRLF_def CRLF_def)
  then have "splitLines (''GET /'' @ A @ '' HTTP/1.1'' @ CRLFCRLF) = splitFrom CRLF [] (?line @ CRLF @ CRLF @ [])"
    by (simp only: splitLines_def split_def) (simp add: CRLF_def)
  also have "\<dots> = ?line # splitFrom CRLF [] (CRLF @ [])"
    using cr by (subst splitFrom_token) (simp_all add: CRLF_def)
  also have "splitFrom CRLF [] (CRLF @ []) = [[], []]"
    by (subst splitFrom_sep) (simp_all add: CRLF_def)
  finally have lines: "splitLines (''GET /'' @ A @ '' HTTP/1.1'' @ CRLFCRLF) = [?line, [], []]" .
  have "?line = ''GET'' @ '' '' @ (''/'' @ A) @ '' '' @ ''HTTP/1.1''"
    by simp
  then have "split '' '' ?line = splitFrom '' '' [] (''GET'' @ '' '' @ (''/'' @ A) @ '' '' @ ''HTTP/1.1'')"
    by (simp only: split_def) simp
  also have "\<dots> = ''GET'' # splitFrom '' '' [] ((''/'' @ A) @ '' '' @ ''HTTP/1.1'')"
    by (subst splitFrom_token) simp_all
  also have "splitFrom '' '' [] ((''/'' @ A) @ '' '' @ ''HTTP/1.1'') =
      (''/'' @ A) # splitFrom '' '' [] ''HTTP/1.1''"
    using assms(2) by (subst splitFrom_token) simp_all
  also have "splitFrom '' '' [] ''HTTP/1.1'' = [''HTTP/1.1'']"
    by simp
  finally have toks: "split '' '' ?line = [''GET'', ''/'' @ A, ''HTTP/1.1'']" .
  have ver: "splitLimit ''/'' 2 ''HTTP/1.1'' = [''HTTP'', ''1.1'']"
    by (simp add: splitLimit_def split_def)
  have "parseRequestLine ?line = Inr (''GET'', ''/'' @ A, ''1.1'')"
    by (simp only: parseRequestLine_def toks list.case) (simp add: ver startsWith_def)
  then show ?thesis
    by (simp only: parseHTTPReq_def lines) (simp add: validateHeader_def)
qed

lemma feedChunks_first_too_large:
  assumes "CR \<notin> set c" "kMaxHeaderLen \<le> length c"
  shows "feedChunks emptyBuf (c # cs) = Inl (HTTPError 413 ''Header too large'')"
proof -
  have e: "wfBuf emptyBuf" "occupied emptyBuf = []" "length_buf emptyBuf = 0"
    by (simp_all add: wfBuf_def emptyBuf_def occupied_take)
  have "indexOf CRLFCRLF (occupied emptyBuf) = None"
    by (simp add: e CRLFCRLF_def)
  then have c0: "cutMessage emptyBuf = Inr (None, emptyBuf)"
    by (simp add: cutMessage_None e kMaxHeaderLen_def)
  have o: "occupied (bufPush emptyBuf c) = c"
    using e by (simp add: occupied_bufPush)
  have "indexOf CRLFCRLF c = None"
    using assms(1) by (intro indexOf_no_first) (simp_all add: CRLFCRLF_def)
  then have "cutMessage (bufPush emptyBuf c) = Inl (HTTPError 413 ''Header too large'')"
    using assms(2) by (simp add: cutMessage_None o e)
  with c0 show ?thesis
    by (cases cs) simp_all
qed

text \<open>
  C2. \<open>cutMessage\<close> returns \<open>null\<close> exactly when the occupied bytes contain no
  CRLFCRLF and the length field is below \<open>kMaxHeaderLen\<close>, which is 8192; with no
  CRLFCRLF and a length of \<open>kMaxHeaderLen\<close> or more it throws the HTTP error 413. The
  buffer need not satisfy any invariant for this.
\<close>

theorem cutMessage_incomplete_iff:
  "((\<exists>b. cutMessage buf = Inr (None, b)) \<longleftrightarrow>
      \<not> (\<exists>pre suf. occupied buf = pre @ CRLFCRLF @ suf) \<and> length_buf buf < kMaxHeaderLen) \<and>
   (\<not> (\<exists>pre suf. occupied buf = pre @ CRLFCRLF @ suf) \<and> kMaxHeaderLen \<le> length_buf buf \<longrightarrow>
      cutMessage buf = Inl (HTTPError 413 ''Header too large'')) \<and>
   kMaxHeaderLen = 8192"
proof (cases "indexOf CRLFCRLF (occupied buf)")
  case None
  then have "\<not> (\<exists>pre suf. occupied buf = pre @ CRLFCRLF @ suf)"
    by (simp add: indexOf_None_contains)
  with cutMessage_None [OF None] show ?thesis
    by (auto simp: kMaxHeaderLen_def)
next
  case (Some i)
  then have "indexOf CRLFCRLF (occupied buf) \<noteq> None" by simp
  then have c: "\<exists>pre suf. occupied buf = pre @ CRLFCRLF @ suf"
    by (simp add: indexOf_None_contains)
  from Some have "\<not> (\<exists>b. cutMessage buf = Inr (None, b))"
    by (auto simp: cutMessage_def occupied_def split: sum.splits)
  with c show ?thesis
    by (simp add: kMaxHeaderLen_def)
qed

theorem cutMessage_incomplete_iff_witness:
  "cutMessage (bufPush emptyBuf ''GET / HTTP/1.1'') = Inr (None, bufPush emptyBuf ''GET / HTTP/1.1'') \<and>
   cutMessage \<lparr>data = replicate 8192 (CHR ''a''), length_buf = 8192\<rparr>
     = Inl (HTTPError 413 ''Header too large'')"
proof -
  let ?b = "bufPush emptyBuf ''GET / HTTP/1.1''"
  let ?big = "\<lparr>data = replicate 8192 (CHR ''a''), length_buf = 8192\<rparr>"
  have "wfBuf emptyBuf" by (simp add: wfBuf_def emptyBuf_def)
  then have o: "occupied ?b = ''GET / HTTP/1.1''"
    by (simp add: occupied_bufPush) (simp add: occupied_take emptyBuf_def)
  have "indexOf CRLFCRLF (occupied ?b) = None"
    unfolding o by (rule indexOf_no_first) (simp_all add: CRLFCRLF_def CR_def)
  then have n1: "\<not> (\<exists>pre suf. occupied ?b = pre @ CRLFCRLF @ suf)"
    by (simp add: indexOf_None_contains)
  have l1: "length_buf ?b < kMaxHeaderLen"
    by (simp add: kMaxHeaderLen_def emptyBuf_def)
  from cutMessage_incomplete_iff [of ?b] n1 l1 obtain b where b: "cutMessage ?b = Inr (None, b)"
    by blast
  then have "b = ?b"
    by (auto simp: cutMessage_def split: option.splits if_splits sum.splits)
  have "indexOf CRLFCRLF (occupied ?big) = None"
    by (rule indexOf_no_first) (simp_all add: CRLFCRLF_def CR_def occupied_take)
  then have n2: "\<not> (\<exists>pre suf. occupied ?big = pre @ CRLFCRLF @ suf)"
    by (simp add: indexOf_None_contains)
  have "kMaxHeaderLen \<le> length_buf ?big"
    by (simp add: kMaxHeaderLen_def)
  with cutMessage_incomplete_iff [of ?big] n2 have "cutMessage ?big = Inl (HTTPError 413 ''Header too large'')"
    by blast
  with b \<open>b = ?b\<close> show ?thesis by simp
qed

text \<open>
  C1, as the code has it. When the first CRLFCRLF of the byte sequence ends within the
  first \<open>kMaxHeaderLen\<close> bytes, then for every split into chunks feeding the chunks one
  at a time yields what feeding the whole sequence yields: the same request or the same
  parse error, and never \<open>null\<close>.
\<close>

theorem chunk_split_independent:
  assumes "concat chunks = pre @ CRLFCRLF @ suf" "length pre + 4 \<le> kMaxHeaderLen"
  shows "feedChunks emptyBuf chunks = feedWhole (concat chunks) \<and>
         feedChunks emptyBuf chunks \<noteq> Inr None"
proof -
  from indexOf_le_occurrence [OF _ assms(1)] obtain idx where
    idx: "indexOf CRLFCRLF (concat chunks) = Some idx" "idx \<le> length pre" by auto
  have e: "wfBuf emptyBuf" "occupied emptyBuf = []"
    by (simp_all add: wfBuf_def emptyBuf_def occupied_take)
  from idx assms(2) have "idx + 4 \<le> kMaxHeaderLen" by simp
  from feedChunks_general [OF e(1) _ this, of chunks] idx(1) e(2)
  have "feedChunks emptyBuf chunks =
     (case parseHTTPReq (take (idx + 4) (concat chunks)) of
        Inl e \<Rightarrow> Inl e | Inr msg \<Rightarrow> Inr (Some msg))" by simp
  with feedWhole_eq [OF idx(1)] show ?thesis
    by (simp split: sum.splits)
qed



theorem chunk_split_independent_witness:
  "feedChunks emptyBuf [''GET / HT'', ''TP/1.1'' @ CRLF @ ''Host: x'', CRLFCRLF @ ''rest'']
     = feedWhole (concat [''GET / HT'', ''TP/1.1'' @ CRLF @ ''Host: x'', CRLFCRLF @ ''rest''])"
proof -
  have "concat [''GET / HT'', ''TP/1.1'' @ CRLF @ ''Host: x'', CRLFCRLF @ ''rest'']
      = (''GET / HTTP/1.1'' @ CRLF @ ''Host: x'') @ CRLFCRLF @ ''rest''"
    by simp
  moreover have "length (''GET / HTTP/1.1'' @ CRLF @ ''Host: x'') + 4 \<le> kMaxHeaderLen"
    by (simp add: kMaxHeaderLen_def CRLF_def)
  ultimately show ?thesis
    using chunk_split_independent by blast
qed

text \<open>
  C1 as stated fails for a header block longer than \<open>kMaxHeaderLen\<close>: fed whole, the
  request below is parsed; fed in two chunks, the first chunk alone holds 8197 bytes
  without a CRLFCRLF and the framer throws 413 before the second one is pushed.
\<close>

theorem chunk_split_counterexample:
  "feedChunks emptyBuf [''GET /'' @ replicate 8192 (CHR ''a''), '' HTTP/1.1'' @ CRLFCRLF]
     = Inl (HTTPError 413 ''Header too large'') \<and>
   feedWhole (concat [''GET /'' @ replicate 8192 (CHR ''a''), '' HTTP/1.1'' @ CRLFCRLF])
     = Inr (Some \<lparr>method_req = ''GET'', uri = ''/'' @ replicate 8192 (CHR ''a''),
                    version = ''1.1'', headers = []\<rparr>)"
proof -
  let ?A = "replicate 8192 (CHR ''a'')"
  let ?c = "''GET /'' @ ?A @ '' HTTP/1.1''"
  have "feedChunks emptyBuf [''GET /'' @ ?A, '' HTTP/1.1'' @ CRLFCRLF]
     = Inl (HTTPError 413 ''Header too large'')"
    by (rule feedChunks_first_too_large) (simp_all add: CR_def kMaxHeaderLen_def)
  moreover have s: "concat [''GET /'' @ ?A, '' HTTP/1.1'' @ CRLFCRLF] = ?c @ CRLFCRLF @ []"
    by simp
  have "indexOf CRLFCRLF (?c @ CRLFCRLF @ []) = Some (length ?c)"
    by (rule indexOf_after_prefix) (simp_all add: CRLFCRLF_def CR_def)
  from feedWhole_eq [OF this]
  have "feedWhole (?c @ CRLFCRLF @ []) =
     (case parseHTTPReq (take (length ?c + 4) (?c @ CRLFCRLF @ [])) of
        Inl e \<Rightarrow> Inl e | Inr msg \<Rightarrow> Inr (Some msg))" .
  moreover have "take (length ?c + 4) (?c @ CRLFCRLF @ []) = ''GET /'' @ ?A @ '' HTTP/1.1'' @ CRLFCRLF"
    by simp
  moreover have "parseHTTPReq (''GET /'' @ ?A @ '' HTTP/1.1'' @ CRLFCRLF) =
     Inr \<lparr>method_req = ''GET'', uri = ''/'' @ ?A, version = ''1.1'', headers = []\<rparr>"
    by (rule parse_long_target) (simp_all add: CR_def)
  ultimately show ?thesis
    by (simp only: s sum.case)
qed

section \<open>Properties of the request parser\<close>

lemma splitFrom_not_Nil: "splitFrom sep cur s \<noteq> []"
  by (induction sep cur s rule: splitFrom.induct) auto

lemma split_not_Nil: "sep \<noteq> [] \<Longrightarrow> split sep s \<noteq> []"
  by (simp add: split_def splitFrom_not_Nil)

lemma version_of_bare_prefix: "splitLimit ''/'' 2 ''HTTP/'' = [''HTTP'', []]"
  by (simp add: splitLimit_def split_def)

lemma startsWith_decompose: "startsWith p q \<longleftrightarrow> (\<exists>sfx. p = q @ sfx)"
proof
  assume "startsWith p q"
  then have "p = q @ drop (length q) p"
    by (metis append_take_drop_id startsWith_def)
  then show "\<exists>sfx. p = q @ sfx" ..
next
  assume "\<exists>sfx. p = q @ sfx"
  then show "startsWith p q" by (auto simp: startsWith_def)
qed

lemma parseRequestLine_Inr:
  assumes "parseRequestLine line = Inr (m, u, v)"
  shows "\<exists>sfx. split '' '' line = [m, u, ''HTTP/'' @ sfx] \<and> sfx \<noteq> [] \<and> v \<noteq> []"
proof -
  from assms obtain p where toks: "split '' '' line = [m, u, p]"
    by (auto simp: parseRequestLine_def split: list.splits if_splits)
  with assms have sw: "startsWith p ''HTTP/''"
    by (auto simp: parseRequestLine_def split: list.splits if_splits)
  then obtain sfx where p: "p = ''HTTP/'' @ sfx"
    by (auto simp: startsWith_decompose)
  from assms toks sw have v: "v \<noteq> []" and "\<exists>x. splitLimit ''/'' 2 p = [x, v]"
    by (auto simp: parseRequestLine_def split: list.splits if_splits)
  then have "sfx \<noteq> []"
    using p version_of_bare_prefix by auto
  with toks p v show ?thesis by simp
qed

lemma parseRequestLine_Inl:
  assumes "length (split '' '' line) \<noteq> 3 \<or>
           \<not> (\<exists>sfx. sfx \<noteq> [] \<and> split '' '' line ! 2 = ''HTTP/'' @ sfx)"
  shows "\<exists>msg. parseRequestLine line = Inl (HTTPError 400 msg)"
proof (cases "parseRequestLine line")
  case (Inl e)
  then show ?thesis
    by (auto simp: parseRequestLine_def split: list.splits if_splits)
next
  case (Inr t)
  obtain m u v where "t = (m, u, v)" by (cases t)
  with Inr parseRequestLine_Inr [of line m u v] assms show ?thesis
    by auto
qed

text \<open>
  C3. A header block always has a first line. When \<open>parseHTTPReq\<close> succeeds, that line
  splits on spaces into exactly three tokens, the method, the target and a protocol tag
  that is \<open>HTTP/\<close> followed by a suffix that is not empty, and the version found is
  not empty. When the line has another number of tokens, or its third token is not
  \<open>HTTP/\<close> followed by something, parsing fails with an HTTP error of status 400.
\<close>

theorem requestLine_three_tokens:
  "\<exists>line rest. splitLines d = line # rest \<and>
     (\<forall>req. parseHTTPReq d = Inr req \<longrightarrow>
        (\<exists>sfx. split '' '' line = [method_req req, uri req, ''HTTP/'' @ sfx] \<and>
               sfx \<noteq> [] \<and> version req \<noteq> [])) \<and>
     (length (split '' '' line) \<noteq> 3 \<or>
      \<not> (\<exists>sfx. sfx \<noteq> [] \<and> split '' '' line ! 2 = ''HTTP/'' @ sfx) \<longrightarrow>
        (\<exists>msg. parseHTTPReq d = Inl (HTTPError 400 msg)))"
proof -
  have "splitLines d \<noteq> []"
    by (simp add: splitLines_def split_not_Nil CRLF_def)
  then obtain line rest where l: "splitLines d = line # rest"
    by (cases "splitLines d") auto
  have a: "\<exists>sfx. split '' '' line = [method_req req, uri req, ''HTTP/'' @ sfx] \<and>
               sfx \<noteq> [] \<and> version req \<noteq> []" if "parseHTTPReq d = Inr req" for req
  proof -
    from that l have "parseRequestLine line = Inr (method_req req, uri req, version req)"
      by (auto simp: parseHTTPReq_def split: sum.splits)
    then show ?thesis by (rule parseRequestLine_Inr)
  qed
  have b: "\<exists>msg. parseHTTPReq d = Inl (HTTPError 400 msg)"
    if "length (split '' '' line) \<noteq> 3 \<or>
      \<not> (\<exists>sfx. sfx \<noteq> [] \<and> split '' '' line ! 2 = ''HTTP/'' @ sfx)"
  proof -
    from parseRequestLine_Inl [OF that] obtain msg where
      "parseRequestLine line = Inl (HTTPError 400 msg)" ..
    with l show ?thesis by (simp add: parseHTTPReq_def)
  qed
  from l a b show ?thesis by blast
qed


theorem requestLine_three_tokens_witness:
  "parseHTTPReq (''GET / HTTP/1.1'' @ CRLFCRLF)
     = Inr \<lparr>method_req = ''GET'', uri = ''/'', version = ''1.1'', headers = []\<rparr> \<and>
   (\<exists>sfx. split '' '' ''GET / HTTP/1.1'' = [''GET'', ''/'', ''HTTP/'' @ sfx] \<and> sfx \<noteq> []) \<and>
   length (split '' '' ''GET /'') \<noteq> 3 \<and>
   (\<exists>msg. parseHTTPReq (''GET /'' @ CRLFCRLF) = Inl (HTTPError 400 msg))"
proof -
  let ?req = "\<lparr>method_req = ''GET'', uri = ''/'', version = ''1.1'', headers = []\<rparr>"
  have l0: "splitLines (''GET / HTTP/1.1'' @ CRLFCRLF) = [''GET / HTTP/1.1'', [], []]"
    by (simp add: splitLines_def split_def CRLF_def CRLFCRLF_def CR_def LF_def)
  have p0: "parseHTTPReq (''GET / HTTP/1.1'' @ CRLFCRLF) = Inr ?req"
    by (simp only: parseHTTPReq_def l0)
       (simp add: parseRequestLine_def split_def splitLimit_def startsWith_def)
  from requestLine_three_tokens [of "''GET / HTTP/1.1'' @ CRLFCRLF"] l0 p0
  have a: "\<exists>sfx. split '' '' ''GET / HTTP/1.1'' = [''GET'', ''/'', ''HTTP/'' @ sfx] \<and> sfx \<noteq> []"
    by (simp del: append.simps)
  have l1: "splitLines (''GET /'' @ CRLFCRLF) = [''GET /'', [], []]"
    by (simp add: splitLines_def split_def CRLF_def CRLFCRLF_def CR_def LF_def)
  have n: "length (split '' '' ''GET /'') \<noteq> 3"
    by (simp add: split_def)
  from requestLine_three_tokens [of "''GET /'' @ CRLFCRLF"] l1 n
  have b: "\<exists>msg. parseHTTPReq (''GET /'' @ CRLFCRLF) = Inl (HTTPError 400 msg)"
    by (simp del: append.simps)
  from p0 a n b show ?thesis by blast
qed

section \<open>Properties of the connection\<close>

lemma soRead_ended: "ended conn \<Longrightarrow> soRead conn = (Resolved [], conn)"
  by (simp add: soRead_def)

lemma soRead_failed: "\<not> ended conn \<Longrightarrow> err conn = Some e \<Longrightarrow> soRead conn = (Rejected e, conn)"
  by (simp add: soRead_def)

lemma soReads_ended: "ended conn \<Longrightarrow> soReads n conn = (replicate n (Resolved []), conn)"
  by (induction n) (simp_all add: soRead_ended)

lemma soReads_failed:
  "\<not> ended conn \<Longrightarrow> err conn = Some e \<Longrightarrow> soReads n conn = (replicate n (Rejected e), conn)"
  by (induction n) (simp_all add: soRead_failed)

text \<open>
  C9, as the code has it. Once the clean-end flag is set, any number of reads all
  resolve with the empty chunk; once the error field is set on a connection whose
  clean-end flag is not set, any number of reads all reject with that error. In both
  cases the connection is left exactly as it was: no reader is registered and the socket
  is not resumed. The test of \<open>conn.ended\<close> comes first in \<open>soRead\<close>, so when both are
  set the reads resolve with the empty chunk.
\<close>

theorem latched_reads:
  "(ended conn \<longrightarrow> soReads n conn = (replicate n (Resolved []), conn)) \<and>
   (\<not> ended conn \<and> err conn = Some e \<longrightarrow> soReads n conn = (replicate n (Rejected e), conn))"
  by (simp add: soReads_ended soReads_failed)

theorem latched_reads_witness:
  "soReads 3 \<lparr>socket = \<lparr>incoming = [Data ''x''], writeResults = [], written = [], flowing = False\<rparr>,
               err = None, ended = True, reader = False\<rparr>
     = ([Resolved [], Resolved [], Resolved []],
        \<lparr>socket = \<lparr>incoming = [Data ''x''], writeResults = [], written = [], flowing = False\<rparr>,
               err = None, ended = True, reader = False\<rparr>) \<and>
   soReads 2 \<lparr>socket = \<lparr>incoming = [Data ''x''], writeResults = [], written = [], flowing = False\<rparr>,
               err = Some (Error ''ECONNRESET''), ended = False, reader = False\<rparr>
     = ([Rejected (Error ''ECONNRESET''), Rejected (Error ''ECONNRESET'')],
        \<lparr>socket = \<lparr>incoming = [Data ''x''], writeResults = [], written = [], flowing = False\<rparr>,
               err = Some (Error ''ECONNRESET''), ended = False, reader = False\<rparr>)"
  using latched_reads [of "\<lparr>socket = \<lparr>incoming = [Data ''x''], writeResults = [], written = [], flowing = False\<rparr>,
               err = None, ended = True, reader = False\<rparr>" 3]
    latched_reads [of "\<lparr>socket = \<lparr>incoming = [Data ''x''], writeResults = [], written = [], flowing = False\<rparr>,
               err = Some (Error ''ECONNRESET''), ended = False, reader = False\<rparr>" 2 "Error ''ECONNRESET''"]
  by (simp add: numeral_3_eq_3 numeral_2_eq_2)

text \<open>
  C9 as stated fails where both are set. The socket below emits \<open>end\<close> while the first
  read is pending and reports an error afterwards; the error is latched in \<open>conn.err\<close>,
  yet the next read resolves with the empty chunk instead of failing with it.
\<close>

theorem latched_error_counterexample:
  "err (fst (onError (snd (soRead (soInit \<lparr>incoming = [End], writeResults = [], written = [],
                                          flowing = False\<rparr>)))
                     (Error ''EPIPE''))) = Some (Error ''EPIPE'') \<and>
   fst (soRead (fst (onError (snd (soRead (soInit \<lparr>incoming = [End], writeResults = [],
                                                   written = [], flowing = False\<rparr>)))
                              (Error ''EPIPE'')))) = Resolved []"
  by (simp add: soRead_def soInit_def onError_def onEnd_def emit_def Let_def)

section \<open>Properties of the body readers\<close>

text \<open>
  C4. A Content-Length value that is not a non-negative integer is to be rejected with
  status 400. \<open>readerFromReq\<close> rejects only where \<open>parseInt\<close> yields \<open>NaN\<close>: the request
  \<open>POST / HTTP/1.1\<close>, \<open>Content-Length: -5\<close> is parsed and gets a connection-backed
  reader with the count \<open>-5\<close>, and the value \<open>12abc\<close> is taken as 12, since \<open>parseInt\<close>
  ignores what follows the digits.
\<close>

theorem readerFromReq_negative_length:
  "parseHTTPReq (''POST / HTTP/1.1'' @ CRLF @ ''Content-Length: -5'' @ CRLFCRLF)
     = Inr \<lparr>method_req = ''POST'', uri = ''/'', version = ''1.1'',
            headers = [''Content-Length: -5'']\<rparr> \<and>
   readerFromReq \<lparr>method_req = ''POST'', uri = ''/'', version = ''1.1'',
                  headers = [''Content-Length: -5'']\<rparr>
     = Inr \<lparr>length_rd = - 5, state_rd = ConnLength (- 5)\<rparr> \<and>
   readerFromReq \<lparr>method_req = ''POST'', uri = ''/'', version = ''1.1'',
                  headers = [''Content-Length: 12abc'']\<rparr>
     = Inr \<lparr>length_rd = 12, state_rd = ConnLength 12\<rparr>"
  by code_simp

text \<open>What such a reader does: with the ten bytes \<open>0123456789\<close> pushed and consumed
  before, and the single byte \<open>x\<close> arriving, the first \<open>read\<close> resolves with 27 bytes of
  the storage and leaves a buffer whose occupied prefix is \<open>x12345\<close>.\<close>

lemma negative_length_read:
  "read (readerFromConnLength (- 5))
     (soInit \<lparr>incoming = [Data ''x''], writeResults = [], written = [], flowing = False\<rparr>,
      bufPop (bufPush emptyBuf ''0123456789'') 10)
   = (Resolved (''x123456789'' @ replicate 17 (CHR 0x00)),
      \<lparr>length_rd = - 5, state_rd = ConnLength 0\<rparr>,
      \<lparr>socket = \<lparr>incoming = [], writeResults = [], written = [], flowing = False\<rparr>,
         err = None, ended = False, reader = False\<rparr>,
      \<lparr>data = ''x123456789'' @ replicate 22 (CHR 0x00), length_buf = 6\<rparr>)"
  by code_simp

lemma refill_wf:
  assumes "wfBuf (snd w)" "refill w = (u, conn1, buf1)"
  shows "wfBuf buf1"
  using assms
  by (auto simp: refill_def wfBuf_bufPush split: if_splits prod.splits Promise.splits)

lemma refill_nonempty:
  assumes "length_buf (snd w) \<noteq> 0"
  shows "refill w = (Resolved (), w)"
  using assms by (simp add: refill_def)

lemma refill_eof:
  assumes "length_buf (snd w) = 0" "fst (soRead (fst w)) = Resolved []"
  shows "fst (refill w) = Rejected (Error ''Unexpected EOF'')"
  using assms by (cases "soRead (fst w)") (simp add: refill_def)

lemma readConnLength_step:
  assumes "wfBuf (snd w)" "0 \<le> r" "readConnLength r w = (res, r1, conn1, buf1)"
  shows "wfBuf buf1 \<and> 0 \<le> r1 \<and>
         (case res of Resolved d \<Rightarrow> int (length d) + r1 = r | _ \<Rightarrow> r1 = r)"
proof (cases "r = 0")
  case True
  with assms show ?thesis by (cases w) (auto simp: readConnLength_def)
next
  case False
  obtain u c b where rf: "refill w = (u, c, b)" by (cases "refill w") auto
  from refill_wf [OF assms(1) rf] have wb: "wfBuf b" .
  show ?thesis
  proof (cases u)
    case (Resolved x)
    define consume where "consume = min (int (length_buf b)) r"
    have c0: "0 \<le> consume" "consume \<le> int (length_buf b)" "consume \<le> r"
      using assms(2) by (simp_all add: consume_def)
    from assms(3) False rf Resolved have res: "res = Resolved (subarray (data b) 0 consume)"
      and r1: "r1 = r - consume" and b1: "buf1 = bufPop b consume"
      by (simp_all add: readConnLength_def consume_def Let_def)
    have "subarray (data b) 0 (int (nat consume)) = take (nat consume) (data b)"
      by (rule subarray_0_nat)
    with c0 wb have "int (length (subarray (data b) 0 consume)) = consume"
      by (simp add: wfBuf_def)
    with res r1 b1 c0 wb show ?thesis
      by (simp add: wfBuf_bufPop)
  next
    case (Rejected e)
    with assms(2,3) False rf wb show ?thesis
      by (auto simp: readConnLength_def)
  next
    case Pending
    with assms(2,3) False rf wb show ?thesis
      by (auto simp: readConnLength_def)
  qed
qed

lemma readMany_conn:
  assumes "wfBuf (snd w)" "0 \<le> r" "state_rd rd = ConnLength r"
    "readMany k rd w = (rs, rd', w')"
  shows "wfBuf (snd w') \<and> state_rd rd' = ConnLength (r - int (yielded rs)) \<and>
         int (yielded rs) \<le> r"
  using assms
proof (induction k arbitrary: rd w r rs)
  case 0
  then show ?case by simp
next
  case (Suc k)
  obtain res r1 conn1 buf1 where rc: "readConnLength r w = (res, r1, conn1, buf1)"
    by (cases "readConnLength r w") auto
  from readConnLength_step [OF Suc.prems(1,2) rc]
  have st: "wfBuf buf1" "0 \<le> r1"
    "case res of Resolved d \<Rightarrow> int (length d) + r1 = r | _ \<Rightarrow> r1 = r"
    by simp_all
  let ?rd1 = "rd\<lparr>state_rd := ConnLength r1\<rparr>"
  from rc Suc.prems(3) have rd: "read rd w = (res, ?rd1, conn1, buf1)"
    by (simp add: read_def)
  obtain rs1 where m: "readMany k ?rd1 (conn1, buf1) = (rs1, rd', w')" and rs: "rs = res # rs1"
    using Suc.prems(4) rd by (auto split: prod.splits)
  from Suc.IH [OF _ st(2) _ m] st(1)
  have ih: "wfBuf (snd w')" "state_rd rd' = ConnLength (r1 - int (yielded rs1))"
    "int (yielded rs1) \<le> r1"
    by simp_all
  from st(3) have "r - int (yielded (res # rs1)) = r1 - int (yielded rs1)"
    by (cases res) simp_all
  with ih rs show ?case by simp
qed

lemma length_subarray_le: "0 \<le> c \<Longrightarrow> int (length (subarray xs 0 c)) \<le> c"
  by (simp add: subarray_def Let_def relIndex_def)

lemma readConnLength_bound:
  assumes "0 \<le> r" "readConnLength r w = (res, r1, conn1, buf1)"
  shows "0 \<le> r1 \<and> (case res of Resolved d \<Rightarrow> int (length d) + r1 \<le> r | _ \<Rightarrow> r1 = r)"
proof (cases "r = 0")
  case True
  with assms show ?thesis by (cases w) (auto simp: readConnLength_def)
next
  case False
  obtain u c b where rf: "refill w = (u, c, b)" by (cases "refill w") auto
  show ?thesis
  proof (cases u)
    case (Resolved x)
    define consume where "consume = min (int (length_buf b)) r"
    have c0: "0 \<le> consume" "consume \<le> r"
      using assms(1) by (simp_all add: consume_def)
    from assms(2) False rf Resolved have res: "res = Resolved (subarray (data b) 0 consume)"
      and r1: "r1 = r - consume"
      by (simp_all add: readConnLength_def consume_def Let_def)
    from length_subarray_le [OF c0(1), of "data b"] res r1 c0 show ?thesis
      by simp
  next
    case (Rejected e)
    with assms False rf show ?thesis
      by (auto simp: readConnLength_def)
  next
    case Pending
    with assms False rf show ?thesis
      by (auto simp: readConnLength_def)
  qed
qed

lemma readMany_bound:
  assumes "0 \<le> r" "state_rd rd = ConnLength r" "readMany k rd w = (rs, rd', w')"
  shows "\<exists>r'. state_rd rd' = ConnLength r' \<and> 0 \<le> r' \<and> int (yielded rs) + r' \<le> r"
  using assms
proof (induction k arbitrary: rd w r rs)
  case 0
  then show ?case by simp
next
  case (Suc k)
  obtain res r1 conn1 buf1 where rc: "readConnLength r w = (res, r1, conn1, buf1)"
    by (cases "readConnLength r w") auto
  from readConnLength_bound [OF Suc.prems(1) rc]
  have st: "0 \<le> r1" "case res of Resolved d \<Rightarrow> int (length d) + r1 \<le> r | _ \<Rightarrow> r1 = r"
    by simp_all
  let ?rd1 = "rd\<lparr>state_rd := ConnLength r1\<rparr>"
  from rc Suc.prems(2) have rd: "read rd w = (res, ?rd1, conn1, buf1)"
    by (simp add: read_def)
  obtain rs1 where m: "readMany k ?rd1 (conn1, buf1) = (rs1, rd', w')" and rs: "rs = res # rs1"
    using Suc.prems(3) rd by (auto split: prod.splits)
  from Suc.IH [OF st(1) _ m] obtain r' where
    ih: "state_rd rd' = ConnLength r'" "0 \<le> r'" "int (yielded rs1) + r' \<le> r1"
    by auto
  from st(2) ih(3) have "int (yielded (res # rs1)) + r' \<le> r"
    by (cases res) simp_all
  with ih rs show ?case by simp
qed

lemma read_buffered:
  assumes "length_buf (snd w) \<noteq> 0"
  shows "fst (snd (snd (read rd w))) = fst w"
proof (cases "state_rd rd")
  case (Memory d dn)
  then show ?thesis
    by (simp add: read_def readMemory_def)
next
  case (ConnLength remain)
  with refill_nonempty [OF assms] show ?thesis
    by (cases w) (simp add: read_def readConnLength_def Let_def)
qed

text \<open>
  What holds for a reader built by \<open>readerFromConnLength\<close> with a count \<open>n\<close> that is not
  negative, after any number of reads. The bytes yielded by the reads that resolved are
  at most \<open>n\<close> in all. While the buffer holds bytes, the next read leaves the connection
  as it is, so no \<open>soRead\<close> is issued. Once \<open>n\<close> bytes have been yielded, a read resolves
  with the empty chunk and touches nothing. When the buffer started with its length
  field within its capacity, then while fewer than \<open>n\<close> bytes have been yielded: if the
  buffer holds bytes, the next read takes them from the front of the buffer, as many as
  are still due; if the buffer is empty and \<open>soRead\<close> resolves with the empty chunk, the
  next read rejects with \<open>Unexpected EOF\<close>.
\<close>

lemma reader_within_capacity:
  assumes "0 \<le> n"
    "readMany k (readerFromConnLength n) (conn0, buf0) = (rs, rd, conn, buf)"
  shows "int (yielded rs) \<le> n \<and>
    (length_buf buf \<noteq> 0 \<longrightarrow> fst (snd (snd (read rd (conn, buf)))) = conn) \<and>
    (int (yielded rs) = n \<longrightarrow> read rd (conn, buf) = (Resolved [], rd, conn, buf)) \<and>
    (wfBuf buf0 \<longrightarrow>
       (int (yielded rs) < n \<and> length_buf buf \<noteq> 0 \<longrightarrow>
          read rd (conn, buf) =
            (Resolved (take (min (length_buf buf) (nat (n - int (yielded rs)))) (occupied buf)),
             rd\<lparr>state_rd := ConnLength (n - int (yielded rs)
                                   - int (min (length_buf buf) (nat (n - int (yielded rs)))))\<rparr>,
             conn,
             bufPop buf (int (min (length_buf buf) (nat (n - int (yielded rs))))))) \<and>
       (int (yielded rs) < n \<and> length_buf buf = 0 \<and> fst (soRead conn) = Resolved [] \<longrightarrow>
          read rd (conn, buf) =
            (Rejected (Error ''Unexpected EOF''), rd, snd (soRead conn), bufPush buf [])))"
proof -
  have st: "state_rd (readerFromConnLength n) = ConnLength n"
    by (simp add: readerFromConnLength_def)
  from readMany_bound [OF assms(1) st assms(2)] obtain r' where
    bd: "state_rd rd = ConnLength r'" "0 \<le> r'" "int (yielded rs) + r' \<le> n"
    by auto
  then have a: "int (yielded rs) \<le> n" by simp
  have b: "fst (snd (snd (read rd (conn, buf)))) = conn" if "length_buf buf \<noteq> 0"
    using read_buffered [of "(conn, buf)" rd] that by simp
  have d: "read rd (conn, buf) = (Resolved [], rd, conn, buf)" if "int (yielded rs) = n"
  proof -
    from bd that have "state_rd rd = ConnLength 0" by simp
    moreover from this have "rd\<lparr>state_rd := ConnLength 0\<rparr> = rd" by (cases rd) simp
    ultimately show ?thesis
      by (simp add: read_def readConnLength_def)
  qed
  let ?r = "n - int (yielded rs)"
  let ?m = "min (length_buf buf) (nat ?r)"
  have w: "(int (yielded rs) < n \<and> length_buf buf \<noteq> 0 \<longrightarrow>
          read rd (conn, buf) =
            (Resolved (take ?m (occupied buf)), rd\<lparr>state_rd := ConnLength (?r - int ?m)\<rparr>,
             conn, bufPop buf (int ?m))) \<and>
       (int (yielded rs) < n \<and> length_buf buf = 0 \<and> fst (soRead conn) = Resolved [] \<longrightarrow>
          read rd (conn, buf) =
            (Rejected (Error ''Unexpected EOF''), rd, snd (soRead conn), bufPush buf []))"
    if wf: "wfBuf buf0"
  proof -
    from readMany_conn [OF _ assms(1) st assms(2)] wf
    have inv: "wfBuf buf" "state_rd rd = ConnLength ?r"
      by simp_all
    have b2: "read rd (conn, buf) =
            (Resolved (take ?m (occupied buf)), rd\<lparr>state_rd := ConnLength (?r - int ?m)\<rparr>,
             conn, bufPop buf (int ?m))"
      if "int (yielded rs) < n" "length_buf buf \<noteq> 0"
    proof -
      have m: "min (int (length_buf buf)) ?r = int ?m"
        using that by simp
      have "subarray (data buf) 0 (int ?m) = take ?m (data buf)"
        by (simp only: subarray_0_nat)
      also have "\<dots> = take ?m (occupied buf)"
        by (simp add: occupied_take min_def)
      finally have sa: "subarray (data buf) 0 (int ?m) = take ?m (occupied buf)" .
      from that have nz: "?r \<noteq> 0" by simp
      have "read rd (conn, buf) =
          (Resolved (subarray (data buf) 0 (min (int (length_buf buf)) ?r)),
           rd\<lparr>state_rd := ConnLength (?r - min (int (length_buf buf)) ?r)\<rparr>,
           conn, bufPop buf (min (int (length_buf buf)) ?r))"
        using nz inv(2) refill_nonempty [of "(conn, buf)"] that(2)
        by (simp add: read_def readConnLength_def Let_def)
      then show ?thesis
        by (simp only: sa m)
    qed
    have c: "read rd (conn, buf) =
            (Rejected (Error ''Unexpected EOF''), rd, snd (soRead conn), bufPush buf [])"
      if "int (yielded rs) < n" "length_buf buf = 0" "fst (soRead conn) = Resolved []"
    proof -
      from that(3) obtain c1 where sr: "soRead conn = (Resolved [], c1)"
        by (cases "soRead conn") auto
      then have c1: "snd (soRead conn) = c1" by simp
      have "refill (conn, buf) = (Rejected (Error ''Unexpected EOF''), c1, bufPush buf [])"
        using that(2) by (simp add: refill_def sr)
      then have rf: "refill (conn, buf) =
          (Rejected (Error ''Unexpected EOF''), snd (soRead conn), bufPush buf [])"
        by (simp only: c1)
      from that(1) have nz: "?r \<noteq> 0" by simp
      from inv(2) have "rd\<lparr>state_rd := ConnLength ?r\<rparr> = rd" by (cases rd) simp
      with rf nz inv(2) show ?thesis
        by (simp add: read_def readConnLength_def)
    qed
    from b2 c show ?thesis by blast
  qed
  from a b d w show ?thesis by blast
qed

text \<open>Why the capacity matters for the last part: on a buffer whose length field
  exceeds its capacity, as a negative count leaves it, a reader for ten bytes yields the
  four bytes of the storage and is then exhausted.\<close>

lemma overlong_buffer_read:
  "read (readerFromConnLength 10)
     (soInit \<lparr>incoming = [], writeResults = [], written = [], flowing = False\<rparr>,
      \<lparr>data = ''abcd'', length_buf = 10\<rparr>)
   = (Resolved ''abcd'', \<lparr>length_rd = 10, state_rd = ConnLength 0\<rparr>,
      soInit \<lparr>incoming = [], writeResults = [], written = [], flowing = False\<rparr>,
      \<lparr>data = ''abcd'', length_buf = 0\<rparr>)"
  by code_simp

text \<open>
  C5. A reader built with a count \<open>n\<close> that is not negative is to yield at most \<open>n\<close>
  bytes, buffered bytes first, and to raise an error when the stream ends before \<open>n\<close>
  bytes have been delivered. On the connection below it does not. The first request
  declares the length \<open>-100\<close>, which \<open>readerFromReq\<close> accepts (C4); skipping its body
  leaves the buffer with a length field of 149 over a storage of 64 bytes. The reader of
  the second request, built with the count 100, then yields the 64 bytes of the storage,
  of which only \<open>hello\<close> arrived as body, and completes with the empty chunk. The
  response goes out with \<open>Content-Length: 100\<close> and a body of 64 bytes, the reader throws
  no \<open>Unexpected EOF\<close>, and the loop goes on to the next request, where the end of the
  stream makes it throw the HTTP error 400.
\<close>

theorem short_body_after_negative_length:
  "fst (serveClient 6
     (soInit \<lparr>incoming = [Data (''POST / HTTP/1.1'' @ CRLF @ ''Content-Length: -100'' @ CRLFCRLF),
                          Data (''POST /echo HTTP/1.1'' @ CRLF @ ''Content-Length: 100'' @ CRLFCRLF
                                @ ''hello''),
                          End],
              writeResults = [], written = [], flowing = False\<rparr>))
     = Threw (HTTPError 400 ''Unexpected EOF'') \<and>
   written (socket (fst (snd (serveClient 6
     (soInit \<lparr>incoming = [Data (''POST / HTTP/1.1'' @ CRLF @ ''Content-Length: -100'' @ CRLFCRLF),
                          Data (''POST /echo HTTP/1.1'' @ CRLF @ ''Content-Length: 100'' @ CRLFCRLF
                                @ ''hello''),
                          End],
              writeResults = [], written = [], flowing = False\<rparr>)))))
     = [''HTTP/1.1 200 OK'' @ CRLF @ ''Server: my_first_http_server'' @ CRLF @
          ''Content-Length: 13'' @ CRLF @ CRLF,
        ''hello world.'' @ [LF],
        ''HTTP/1.1 200 OK'' @ CRLF @ ''Server: my_first_http_server'' @ CRLF @
          ''Content-Length: 100'' @ CRLF @ CRLF,
        ''hello'' @ replicate 15 (CHR 0x00) @ [LF] @ ''Content-Length: 100'' @ CRLFCRLF @
          ''hello'' @ replicate 15 (CHR 0x00)]"
  by code_simp

section \<open>Properties of the response writer\<close>

lemma join_lines: "join sep (x # xs @ [y]) = x @ sep @ concat (map (\<lambda>h. h @ sep) xs) @ y"
  by (induction xs arbitrary: x) simp_all

lemma encodeHTTPResp_bytes: "encodeHTTPResp res = headBytes (code res) (headers_res res)"
  using join_lines [of CRLF "''HTTP/1.1 '' @ showNat (code res) @ '' OK''" "headers_res res" CRLF]
  by (simp add: encodeHTTPResp_def headBytes_def)

lemma emit_written:
  "emit conn ev = (c, p) \<Longrightarrow>
     written (socket c) = written (socket conn) \<and> writeResults (socket c) = writeResults (socket conn)"
  by (cases ev) (auto simp: emit_def onData_def onEnd_def onError_def Let_def split: if_splits)

lemma settle_written:
  "settle evs conn = (p, c) \<Longrightarrow>
     written (socket c) = written (socket conn) \<and> writeResults (socket c) = writeResults (socket conn)"
proof (induction evs arbitrary: conn)
  case Nil
  then show ?case by auto
next
  case (Cons ev evs)
  obtain c1 q where e: "emit conn ev = (c1, q)" by (cases "emit conn ev") auto
  from emit_written [OF e] Cons show ?case
    using e by (cases q) auto
qed

lemma soRead_written:
  "soRead conn = (p, c) \<Longrightarrow>
     written (socket c) = written (socket conn) \<and> writeResults (socket c) = writeResults (socket conn)"
  by (auto simp: soRead_def split: if_splits option.splits dest!: settle_written)

lemma refill_written:
  "refill w = (u, c, b) \<Longrightarrow>
     written (socket c) = written (socket (fst w)) \<and>
     writeResults (socket c) = writeResults (socket (fst w))"
  by (cases w)
     (auto simp: refill_def split: if_splits prod.splits Promise.splits dest!: soRead_written)

lemma read_written:
  assumes "read rd w = (r, rd1, c, b)"
  shows "written (socket c) = written (socket (fst w)) \<and>
         writeResults (socket c) = writeResults (socket (fst w)) \<and>
         length_rd rd1 = length_rd rd"
proof (cases "state_rd rd")
  case (Memory d dn)
  with assms show ?thesis
    by (cases w) (auto simp: read_def readMemory_def split: if_splits)
next
  case (ConnLength remain)
  show ?thesis
  proof (cases "remain = 0")
    case True
    with assms ConnLength show ?thesis
      by (cases w) (auto simp: read_def readConnLength_def)
  next
    case False
    obtain u c1 b1 where rf: "refill w = (u, c1, b1)" by (cases "refill w") auto
    from assms ConnLength False rf have "c = c1" "length_rd rd1 = length_rd rd"
      by (cases u; auto simp: read_def readConnLength_def Let_def)+
    with refill_written [OF rf] show ?thesis by simp
  qed
qed

lemma soWrite_written: "soWrite conn d = (r, c) \<Longrightarrow> written (socket c) = written (socket conn) @ [d]"
  by (auto simp: soWrite_def Let_def split: list.splits)

lemma soWrite_not_Pending: "soWrite conn d \<noteq> (Pending, c)"
  by (auto simp: soWrite_def Let_def split: list.splits option.splits)

lemma writeBody_log:
  "writeBody rd w = (r, rd', w') \<Longrightarrow>
     length_rd rd' = length_rd rd \<and>
     (\<exists>ds. written (socket (fst w')) = written (socket (fst w)) @ ds \<and> (\<forall>d\<in>set ds. d \<noteq> []))"
proof (induction rd w arbitrary: r rd' w' rule: writeBody.induct)
  case (1 rd w)
  obtain res rd1 conn1 buf1 where rd: "read rd w = (res, rd1, conn1, buf1)"
    by (cases "read rd w") auto
  note rw = read_written [OF rd]
  show ?case
  proof (cases res)
    case (Resolved d)
    show ?thesis
    proof (cases "d = []")
      case True
      with "1.prems" rd Resolved rw show ?thesis
        by (intro conjI exI [of _ "[]"]) (auto simp: writeBody.simps [of rd w])
    next
      case False
      obtain q conn2 where sw: "soWrite conn1 d = (q, conn2)" by (cases "soWrite conn1 d") auto
      note ww = soWrite_written [OF sw]
      show ?thesis
      proof (cases q)
        case (Resolved u)
        with "1.prems" rd \<open>res = Resolved d\<close> False sw
        have rec: "writeBody rd1 (conn2, buf1) = (r, rd', w')"
          by (simp add: writeBody.simps [of rd w])
        from False have ld: "length d \<noteq> 0" by simp
        from "1.IH" [OF rd [symmetric] \<open>res = Resolved d\<close> refl refl ld sw [symmetric] Resolved rec]
        obtain ds where "length_rd rd' = length_rd rd1"
          "written (socket (fst w')) = written (socket conn2) @ ds" "\<forall>d\<in>set ds. d \<noteq> []"
          by auto
        with rw ww False show ?thesis
          by (intro conjI exI [of _ "d # ds"]) simp_all
      next
        case (Rejected e)
        with "1.prems" rd \<open>res = Resolved d\<close> False sw rw ww show ?thesis
          by (intro conjI exI [of _ "[d]"]) (auto simp: writeBody.simps [of rd w])
      next
        case Pending
        with sw soWrite_not_Pending show ?thesis by blast
      qed
    qed
  next
    case (Rejected e)
    with "1.prems" rd rw show ?thesis
      by (intro conjI exI [of _ "[]"]) (auto simp: writeBody.simps [of rd w])
  next
    case Pending
    with "1.prems" rd rw show ?thesis
      by (intro conjI exI [of _ "[]"]) (auto simp: writeBody.simps [of rd w])
  qed
qed

lemma bodyRun_writeBody:
  "bodyRun rd w ds fin \<Longrightarrow> writeBody rd w = (Resolved (), fin)"
proof (induction rule: bodyRun.induct)
  case (stop rd w fin)
  then show ?case
    by (cases fin) (simp add: writeBody.simps [of rd w])
next
  case (step rd w d rd1 conn1 buf1 conn2 ds fin)
  then show ?case
    by (simp add: writeBody.simps [of rd w])
qed

lemma bodyRun_written:
  "bodyRun rd w ds fin \<Longrightarrow> written (socket (fst (snd fin))) = written (socket (fst w)) @ ds"
proof (induction rule: bodyRun.induct)
  case (stop rd w fin)
  then show ?case
    by (cases fin) (auto dest: read_written)
next
  case (step rd w d rd1 conn1 buf1 conn2 ds fin)
  from read_written [OF step.hyps(1)] soWrite_written [OF step.hyps(3)] step.IH
  show ?case by simp
qed

lemma writeBody_bodyRun:
  "writeBody rd w = (Resolved (), fin) \<Longrightarrow> \<exists>ds. bodyRun rd w ds fin"
proof (induction rd w rule: writeBody.induct)
  case (1 rd w)
  obtain res rd1 conn1 buf1 where rd: "read rd w = (res, rd1, conn1, buf1)"
    by (cases "read rd w") auto
  show ?case
  proof (cases res)
    case (Resolved d)
    show ?thesis
    proof (cases "d = []")
      case True
      with "1.prems" rd Resolved have "read rd w = (Resolved [], fin)"
        by (simp add: writeBody.simps [of rd w])
      then show ?thesis by (blast intro: bodyRun.stop)
    next
      case False
      obtain q conn2 where sw: "soWrite conn1 d = (q, conn2)" by (cases "soWrite conn1 d") auto
      show ?thesis
      proof (cases q)
        case (Resolved u)
        with "1.prems" rd \<open>res = Resolved d\<close> False sw
        have rec: "writeBody rd1 (conn2, buf1) = (Resolved (), fin)"
          by (simp add: writeBody.simps [of rd w])
        from False have ld: "length d \<noteq> 0" by simp
        from "1.IH" [OF rd [symmetric] \<open>res = Resolved d\<close> refl refl ld sw [symmetric] Resolved rec]
        obtain ds where "bodyRun rd1 (conn2, buf1) ds fin" ..
        with rd \<open>res = Resolved d\<close> False sw Resolved have "bodyRun rd w (d # ds) fin"
          by (intro bodyRun.step [of rd w d rd1 conn1 buf1 conn2]) simp_all
        then show ?thesis ..
      next
        case (Rejected e)
        with "1.prems" rd \<open>res = Resolved d\<close> False sw show ?thesis
          by (simp add: writeBody.simps [of rd w])
      next
        case Pending
        with "1.prems" rd \<open>res = Resolved d\<close> False sw show ?thesis
          by (simp add: writeBody.simps [of rd w])
      qed
    qed
  next
    case (Rejected e)
    with "1.prems" rd show ?thesis
      by (simp add: writeBody.simps [of rd w])
  next
    case Pending
    with "1.prems" rd show ?thesis
      by (simp add: writeBody.simps [of rd w])
  qed
qed

lemma writeHTTPResp_sentinel:
  "length_rd (body res) < 0 \<Longrightarrow>
     writeHTTPResp w res = (Rejected (Error ''TODO: chunked encoding''), res, w)"
  by (simp add: writeHTTPResp_def)

lemma writeHTTPResp_unfold:
  assumes "0 \<le> length_rd (body res)"
  shows "writeHTTPResp w res =
     (case soWrite (fst w)
             (headBytes (code res) (headers_res res @ [contentLengthLine (length_rd (body res))])) of
        (Rejected e, conn1) \<Rightarrow>
          (Rejected e,
           res\<lparr>headers_res := headers_res res @ [contentLengthLine (length_rd (body res))]\<rparr>,
           conn1, snd w)
      | (Pending, conn1) \<Rightarrow>
          (Pending,
           res\<lparr>headers_res := headers_res res @ [contentLengthLine (length_rd (body res))]\<rparr>,
           conn1, snd w)
      | (Resolved u, conn1) \<Rightarrow>
          (case writeBody (body res) (conn1, snd w) of
             (r, rd, w1) \<Rightarrow>
               (r, res\<lparr>headers_res := headers_res res @ [contentLengthLine (length_rd (body res))],
                       body := rd\<rparr>, w1)))"
proof -
  have "\<not> length_rd (body res) < 0"
    using assms by simp
  then show ?thesis
    by (simp add: writeHTTPResp_def Let_def encodeHTTPResp_bytes contentLengthLine_def
             del: append.simps split: prod.splits Promise.splits)
qed

lemma writeHTTPResp_effect:
  assumes "0 \<le> length_rd (body res)" "writeHTTPResp w res = (r, res', w')"
  shows "headers_res res' = headers_res res @ [contentLengthLine (length_rd (body res))] \<and>
         code res' = code res \<and> length_rd (body res') = length_rd (body res) \<and>
         (\<exists>ws. written (socket (fst w')) =
                 written (socket (fst w)) @
                 headBytes (code res) (headers_res res @ [contentLengthLine (length_rd (body res))]) # ws \<and>
               (\<forall>d\<in>set ws. d \<noteq> []))"
proof -
  let ?H = "headBytes (code res) (headers_res res @ [contentLengthLine (length_rd (body res))])"
  note unf = writeHTTPResp_unfold [OF assms(1), of w]
  obtain q conn1 where sw: "soWrite (fst w) ?H = (q, conn1)"
    by (cases "soWrite (fst w) ?H") auto
  note ww = soWrite_written [OF sw]
  show ?thesis
  proof (cases q)
    case (Resolved u)
    obtain r0 rd w1 where wb: "writeBody (body res) (conn1, snd w) = (r0, rd, w1)"
      by (cases "writeBody (body res) (conn1, snd w)") auto
    from writeBody_log [OF wb] obtain ds where
      "length_rd rd = length_rd (body res)"
      "written (socket (fst w1)) = written (socket conn1) @ ds" "\<forall>d\<in>set ds. d \<noteq> []"
      by auto
    with unf sw Resolved wb assms(2) ww show ?thesis
      by auto
  next
    case (Rejected e)
    with unf sw assms(2) ww show ?thesis by auto
  next
    case Pending
    with unf sw assms(2) ww show ?thesis by auto
  qed
qed

text \<open>
  C6. With a body whose declared length is negative, \<open>writeHTTPResp\<close> rejects and
  leaves the response, the connection and the buffer as they were: nothing is written.
  Otherwise the response gets the line \<open>Content-Length: n\<close> appended to its headers,
  and the first write holds the status line, every header line and the blank line. The
  writes after it are chunks that are not empty. The writer resolves exactly when the
  head was written successfully and the body loop ran as \<open>bodyRun\<close> says: every read
  resolved with a chunk that was written, until a read resolved with the empty chunk.
  And whenever the head can be written and the body loop can run so, the writer does
  resolve, having written the head and then exactly those chunks.
\<close>

theorem writeHTTPResp_behaviour:
  "(length_rd (body res) < 0 \<longrightarrow>
      writeHTTPResp w res = (Rejected (Error ''TODO: chunked encoding''), res, w)) \<and>
   (0 \<le> length_rd (body res) \<longrightarrow>
      (\<exists>r res' w' ws.
         writeHTTPResp w res = (r, res', w') \<and>
         headers_res res' = headers_res res @ [contentLengthLine (length_rd (body res))] \<and>
         written (socket (fst w')) =
           written (socket (fst w)) @
           headBytes (code res) (headers_res res @ [contentLengthLine (length_rd (body res))]) # ws \<and>
         (\<forall>d\<in>set ws. d \<noteq> []) \<and>
         (r = Resolved () \<longleftrightarrow>
            (\<exists>conn1. soWrite (fst w)
                        (headBytes (code res)
                           (headers_res res @ [contentLengthLine (length_rd (body res))]))
                      = (Resolved (), conn1) \<and>
                    bodyRun (body res) (conn1, snd w) ws (body res', w'))))) \<and>
   (0 \<le> length_rd (body res) \<longrightarrow>
      (\<forall>conn1 ds fin.
         soWrite (fst w)
           (headBytes (code res) (headers_res res @ [contentLengthLine (length_rd (body res))]))
           = (Resolved (), conn1) \<and>
         bodyRun (body res) (conn1, snd w) ds fin \<longrightarrow>
         writeHTTPResp w res =
           (Resolved (),
            res\<lparr>headers_res := headers_res res @ [contentLengthLine (length_rd (body res))],
                body := fst fin\<rparr>,
            snd fin) \<and>
         written (socket (fst (snd fin))) =
           written (socket (fst w)) @
           headBytes (code res) (headers_res res @ [contentLengthLine (length_rd (body res))]) # ds))"
proof (intro conjI impI)
  assume "length_rd (body res) < 0"
  then show "writeHTTPResp w res = (Rejected (Error ''TODO: chunked encoding''), res, w)"
    by (rule writeHTTPResp_sentinel)
next
  assume len: "0 \<le> length_rd (body res)"
  let ?cl = "contentLengthLine (length_rd (body res))"
  let ?H = "headBytes (code res) (headers_res res @ [?cl])"
  let ?res1 = "res\<lparr>headers_res := headers_res res @ [?cl]\<rparr>"
  note unf = writeHTTPResp_unfold [OF len, of w]
  obtain q conn1 where sw: "soWrite (fst w) ?H = (q, conn1)"
    by (cases "soWrite (fst w) ?H") auto
  note ww = soWrite_written [OF sw]
  show "\<exists>r res' w' ws.
         writeHTTPResp w res = (r, res', w') \<and>
         headers_res res' = headers_res res @ [?cl] \<and>
         written (socket (fst w')) = written (socket (fst w)) @ ?H # ws \<and>
         (\<forall>d\<in>set ws. d \<noteq> []) \<and>
         (r = Resolved () \<longleftrightarrow>
            (\<exists>conn1. soWrite (fst w) ?H = (Resolved (), conn1) \<and>
                    bodyRun (body res) (conn1, snd w) ws (body res', w')))"
  proof (cases q)
    case (Rejected e)
    with unf sw have "writeHTTPResp w res = (Rejected e, ?res1, conn1, snd w)"
      by simp
    with ww sw Rejected show ?thesis
      by (intro exI [of _ "Rejected e"] exI [of _ ?res1] exI [of _ "(conn1, snd w)"]
            exI [of _ "[]"]) simp
  next
    case Pending
    with sw soWrite_not_Pending show ?thesis by blast
  next
    case (Resolved u)
    obtain r rd w1 where wb: "writeBody (body res) (conn1, snd w) = (r, rd, w1)"
      by (cases "writeBody (body res) (conn1, snd w)") auto
    from writeBody_log [OF wb] obtain ds where
      ds: "written (socket (fst w1)) = written (socket conn1) @ ds" "\<forall>d\<in>set ds. d \<noteq> []"
      by auto
    from unf sw Resolved wb
    have eq: "writeHTTPResp w res = (r, ?res1\<lparr>body := rd\<rparr>, w1)"
      by simp
    have iff: "r = Resolved () \<longleftrightarrow>
        (\<exists>c. soWrite (fst w) ?H = (Resolved (), c) \<and> bodyRun (body res) (c, snd w) ds (rd, w1))"
    proof
      assume r: "r = Resolved ()"
      with wb obtain ds' where br: "bodyRun (body res) (conn1, snd w) ds' (rd, w1)"
        by (auto dest: writeBody_bodyRun)
      from bodyRun_written [OF br] ds(1) have "ds' = ds" by simp
      with br sw Resolved show
        "\<exists>c. soWrite (fst w) ?H = (Resolved (), c) \<and> bodyRun (body res) (c, snd w) ds (rd, w1)"
        by auto
    next
      assume "\<exists>c. soWrite (fst w) ?H = (Resolved (), c) \<and> bodyRun (body res) (c, snd w) ds (rd, w1)"
      with sw have "bodyRun (body res) (conn1, snd w) ds (rd, w1)" by auto
      from bodyRun_writeBody [OF this] wb show "r = Resolved ()" by simp
    qed
    from eq ds ww iff show ?thesis
      by (intro exI [of _ r] exI [of _ "?res1\<lparr>body := rd\<rparr>"] exI [of _ w1] exI [of _ ds]) simp
  qed
next
  assume len: "0 \<le> length_rd (body res)"
  let ?cl = "contentLengthLine (length_rd (body res))"
  let ?H = "headBytes (code res) (headers_res res @ [?cl])"
  show "\<forall>conn1 ds fin.
         soWrite (fst w) ?H = (Resolved (), conn1) \<and> bodyRun (body res) (conn1, snd w) ds fin \<longrightarrow>
         writeHTTPResp w res =
           (Resolved (), res\<lparr>headers_res := headers_res res @ [?cl], body := fst fin\<rparr>, snd fin) \<and>
         written (socket (fst (snd fin))) = written (socket (fst w)) @ ?H # ds"
  proof (intro allI impI, elim conjE)
    fix conn1 ds fin
    assume sw: "soWrite (fst w) ?H = (Resolved (), conn1)"
      and br: "bodyRun (body res) (conn1, snd w) ds fin"
    from bodyRun_writeBody [OF br] have wb: "writeBody (body res) (conn1, snd w) = (Resolved (), fin)" .
    from writeHTTPResp_unfold [OF len, of w] sw wb
    have "writeHTTPResp w res =
           (Resolved (), res\<lparr>headers_res := headers_res res @ [?cl], body := fst fin\<rparr>, snd fin)"
      by (cases fin) simp
    moreover from bodyRun_written [OF br] soWrite_written [OF sw]
    have "written (socket (fst (snd fin))) = written (socket (fst w)) @ ?H # ds"
      by simp
    ultimately show "writeHTTPResp w res =
           (Resolved (), res\<lparr>headers_res := headers_res res @ [?cl], body := fst fin\<rparr>, snd fin) \<and>
         written (socket (fst (snd fin))) = written (socket (fst w)) @ ?H # ds"
      by (rule conjI)
  qed
qed

lemma soWrite_ok:
  "writeResults (socket conn) = [] \<Longrightarrow>
     soWrite conn d = (Resolved (), conn\<lparr>socket := (socket conn)\<lparr>written := written (socket conn) @ [d]\<rparr>\<rparr>)"
  by (simp add: soWrite_def Let_def)

theorem writeHTTPResp_behaviour_witness:
  "writeHTTPResp (soInit \<lparr>incoming = [], writeResults = [], written = [], flowing = False\<rparr>, emptyBuf)
       \<lparr>code = 200, headers_res = [''Server: x''], body = readerFromConnLength (- 1)\<rparr>
     = (Rejected (Error ''TODO: chunked encoding''),
        \<lparr>code = 200, headers_res = [''Server: x''], body = readerFromConnLength (- 1)\<rparr>,
        soInit \<lparr>incoming = [], writeResults = [], written = [], flowing = False\<rparr>, emptyBuf) \<and>
   fst (writeHTTPResp (soInit \<lparr>incoming = [], writeResults = [], written = [], flowing = False\<rparr>,
                       emptyBuf)
          \<lparr>code = 200, headers_res = [''Server: x''], body = readerFromMemory ''hello''\<rparr>)
     = Resolved () \<and>
   written (socket (fst (snd (snd
            (writeHTTPResp (soInit \<lparr>incoming = [], writeResults = [], written = [], flowing = False\<rparr>,
                            emptyBuf)
               \<lparr>code = 200, headers_res = [''Server: x''], body = readerFromMemory ''hello''\<rparr>)))))
      = [''HTTP/1.1 200 OK'' @ CRLF @ ''Server: x'' @ CRLF @ ''Content-Length: 5'' @ CRLF @ CRLF,
         ''hello'']"
proof -
  let ?ca = "soInit \<lparr>incoming = [], writeResults = [], written = [], flowing = False\<rparr>"
  let ?w = "(?ca, emptyBuf)"
  let ?neg = "\<lparr>code = 200, headers_res = [''Server: x''], body = readerFromConnLength (- 1)\<rparr>"
  let ?res = "\<lparr>code = 200, headers_res = [''Server: x''], body = readerFromMemory ''hello''\<rparr>"
  let ?H = "headBytes (code ?res) (headers_res ?res @ [contentLengthLine (length_rd (body ?res))])"
  let ?HB = "''HTTP/1.1 200 OK'' @ CRLF @ ''Server: x'' @ CRLF @ ''Content-Length: 5'' @ CRLF @ CRLF"
  let ?cb = "?ca\<lparr>socket := (socket ?ca)\<lparr>written := written (socket ?ca) @ [?H]\<rparr>\<rparr>"
  let ?cc = "?cb\<lparr>socket := (socket ?cb)\<lparr>written := written (socket ?cb) @ [''hello'']\<rparr>\<rparr>"
  let ?rdb = "(readerFromMemory ''hello'')\<lparr>state_rd := Memory ''hello'' True\<rparr>"
  have n: "length_rd (body ?neg) < 0"
    by (simp add: readerFromConnLength_def)
  have l: "0 \<le> length_rd (body ?res)"
    by (simp add: readerFromMemory_def)
  have h: "?H = ?HB"
    by code_simp
  from writeHTTPResp_behaviour [of ?neg ?w] n
  have a: "writeHTTPResp ?w ?neg = (Rejected (Error ''TODO: chunked encoding''), ?neg, ?w)"
    by blast
  have sw: "soWrite (fst ?w) ?H = (Resolved (), ?cb)"
    by (simp only: fst_conv) (rule soWrite_ok, simp add: soInit_def)
  have r1: "read (body ?res) (?cb, snd ?w) = (Resolved ''hello'', ?rdb, ?cb, emptyBuf)"
    by (simp add: read_def readMemory_def readerFromMemory_def)
  have sw2: "soWrite ?cb ''hello'' = (Resolved (), ?cc)"
    by (rule soWrite_ok) (simp add: soInit_def)
  have r2: "read ?rdb (?cc, emptyBuf) = (Resolved [], ?rdb, ?cc, emptyBuf)"
    by (simp add: read_def readMemory_def readerFromMemory_def)
  have br: "bodyRun (body ?res) (?cb, snd ?w) [''hello''] (?rdb, ?cc, emptyBuf)"
    by (rule bodyRun.step [OF r1 _ sw2 bodyRun.stop [OF r2]]) simp
  note writeHTTPResp_behaviour [of ?res ?w, THEN conjunct2, THEN conjunct2, rule_format,
      OF l conjI [OF sw br]]
  then have "fst (writeHTTPResp ?w ?res) = Resolved ()"
    and "written (socket (fst (snd (snd (writeHTTPResp ?w ?res))))) = written (socket (fst ?w)) @ ?H # [''hello'']"
    by (simp_all only: fst_conv snd_conv)
  moreover have "written (socket (fst ?w)) = []"
    by (simp add: soInit_def)
  ultimately have b: "fst (writeHTTPResp ?w ?res) = Resolved ()"
    and c: "written (socket (fst (snd (snd (writeHTTPResp ?w ?res))))) = [?HB, ''hello'']"
    by (simp_all only: h append_Nil)
  from a b c show ?thesis by (intro conjI)
qed

text \<open>
  C10. \<open>writeHTTPResp\<close> changes the response it is given: when the declared length is
  not negative, the response after the call has the line \<open>Content-Length: n\<close> appended,
  one header more than before, whether or not the writes succeed. A second call on that
  response appends the line again, and the head it writes carries the line twice.
\<close>

theorem writer_appends_header:
  assumes "0 \<le> length_rd (body res)"
    "writeHTTPResp w res = (r1, res1, w1)" "writeHTTPResp w1 res1 = (r2, res2, w2)"
  shows "headers_res res1 = headers_res res @ [contentLengthLine (length_rd (body res))] \<and>
         length (headers_res res1) = length (headers_res res) + 1 \<and>
         headers_res res2 = headers_res res @ [contentLengthLine (length_rd (body res)),
                                               contentLengthLine (length_rd (body res))] \<and>
         (\<exists>ws. written (socket (fst w2)) =
                 written (socket (fst w1)) @
                 headBytes (code res)
                   (headers_res res @ [contentLengthLine (length_rd (body res)),
                                       contentLengthLine (length_rd (body res))]) # ws)"
proof -
  from writeHTTPResp_effect [OF assms(1,2)]
  have first: "headers_res res1 = headers_res res @ [contentLengthLine (length_rd (body res))]"
    "code res1 = code res" "length_rd (body res1) = length_rd (body res)"
    by simp_all
  with assms(1) have "0 \<le> length_rd (body res1)" by simp
  from writeHTTPResp_effect [OF this assms(3)] first
  show ?thesis by auto
qed

theorem writer_appends_header_witness:
  "headers_res (fst (snd (writeHTTPResp
       (snd (snd (writeHTTPResp
          (soInit \<lparr>incoming = [], writeResults = [], written = [], flowing = False\<rparr>, emptyBuf)
          \<lparr>code = 200, headers_res = [''Server: x''], body = readerFromMemory ''hello''\<rparr>)))
       (fst (snd (writeHTTPResp
          (soInit \<lparr>incoming = [], writeResults = [], written = [], flowing = False\<rparr>, emptyBuf)
          \<lparr>code = 200, headers_res = [''Server: x''], body = readerFromMemory ''hello''\<rparr>))))))
     = [''Server: x'', ''Content-Length: 5'', ''Content-Length: 5'']"
proof -
  let ?w = "(soInit \<lparr>incoming = [], writeResults = [], written = [], flowing = False\<rparr>, emptyBuf)"
  let ?res = "\<lparr>code = 200, headers_res = [''Server: x''], body = readerFromMemory ''hello''\<rparr>"
  obtain r1 res1 w1 where a: "writeHTTPResp ?w ?res = (r1, res1, w1)"
    by (cases "writeHTTPResp ?w ?res") auto
  obtain r2 res2 w2 where b: "writeHTTPResp w1 res1 = (r2, res2, w2)"
    by (cases "writeHTTPResp w1 res1") auto
  have l: "0 \<le> length_rd (body ?res)"
    by (simp add: readerFromMemory_def)
  have c: "contentLengthLine (length_rd (readerFromMemory ''hello'')) = ''Content-Length: 5''"
    by code_simp
  from writer_appends_header [OF l a b] have "headers_res res2 = [''Server: x'', ''Content-Length: 5'', ''Content-Length: 5'']"
    by (simp add: c)
  with a b show ?thesis by (simp only: fst_conv snd_conv)
qed

section \<open>Properties of the server loop\<close>

lemma cutMessage_found_iter:
  assumes "cutMessage (snd w) = Inr (Some msg, buf0)"
  shows "serveLoop (Suc n) w =
     (case readerFromReq msg of
        Inl e \<Rightarrow> (Threw e, fst w, buf0)
      | Inr reqBody \<Rightarrow>
          (case writeHTTPResp (fst w, buf0) (handleReq msg reqBody) of
             (Rejected e, res1, w1) \<Rightarrow> (Threw e, w1)
           | (Pending, res1, w1) \<Rightarrow> (Hung, w1)
           | (Resolved u, res1, w1) \<Rightarrow>
               if version msg = ''1.0'' then (Returned, w1)
               else (case drain (if uri msg = ''/echo'' then body res1 else reqBody) w1 of
                       (Rejected e, rd, w2) \<Rightarrow> (Threw e, w2)
                     | (Pending, rd, w2) \<Rightarrow> (Hung, w2)
                     | (Resolved u, rd, w2) \<Rightarrow> serveLoop n w2)))"
  using assms by simp

text \<open>
  C7, as the code has it. Take the loop of \<open>serveClient\<close> at an iteration in which
  \<open>cutMessage\<close> extracts a request of version \<open>1.0\<close>. Whatever number of iterations it is
  allowed, the loop ends within this one: it never comes back to \<open>cutMessage\<close>, whatever
  the buffer and the socket still hold. When \<open>readerFromReq\<close> throws, the loop throws
  that error and has written nothing. Otherwise \<open>writeHTTPResp\<close> is called once, on the
  response of the handler, and the loop ends as that call ends, in the state it leaves:
  it returns when the call resolves, throws when it rejects, and hangs when it stays
  pending. The writes added are none, or the head of one response with status 200
  followed by chunks of its body; when the loop returns they are not none.
\<close>

theorem http10_served_once:
  assumes "cutMessage (snd w) = Inr (Some msg, buf0)" and "version msg = ''1.0''"
  shows "serveLoop (Suc n) w = serveLoop 1 w \<and>
     fst (serveLoop (Suc n) w) \<noteq> OutOfFuel \<and>
     (\<forall>e. readerFromReq msg = Inl e \<longrightarrow> serveLoop (Suc n) w = (Threw e, fst w, buf0)) \<and>
     (\<forall>reqBody r res1 w1.
        readerFromReq msg = Inr reqBody \<and>
        writeHTTPResp (fst w, buf0) (handleReq msg reqBody) = (r, res1, w1) \<longrightarrow>
        serveLoop (Suc n) w =
          (case r of Resolved u \<Rightarrow> Returned | Rejected e \<Rightarrow> Threw e | Pending \<Rightarrow> Hung, w1)) \<and>
     (\<exists>ws. written (socket (fst (snd (serveLoop (Suc n) w)))) = written (socket (fst w)) @ ws \<and>
           (ws = [] \<or>
            (\<exists>cl ds. ws = headBytes 200 [''Server: my_first_http_server'', cl] # ds \<and>
                     (\<forall>d\<in>set ds. d \<noteq> []))) \<and>
           (fst (serveLoop (Suc n) w) = Returned \<longrightarrow> ws \<noteq> [])) \<and>
     (fst (serveLoop (Suc n) w) = Returned \<longrightarrow>
        (\<exists>reqBody res1.
           readerFromReq msg = Inr reqBody \<and>
           writeHTTPResp (fst w, buf0) (handleReq msg reqBody)
             = (Resolved (), res1, snd (serveLoop (Suc n) w))))"
proof -
  note it = cutMessage_found_iter [OF assms(1)]
  show ?thesis
  proof (cases "readerFromReq msg")
    case (Inl e)
    with it [of n] it [of 0] show ?thesis
      by (simp del: serveLoop.simps)
  next
    case (Inr reqBody)
    let ?res = "handleReq msg reqBody"
    obtain r res1 w1 where wr: "writeHTTPResp (fst w, buf0) ?res = (r, res1, w1)"
      by (cases "writeHTTPResp (fst w, buf0) ?res") auto
    have out: "serveLoop (Suc k) w =
        (case r of Resolved u \<Rightarrow> Returned | Rejected e \<Rightarrow> Threw e | Pending \<Rightarrow> Hung, w1)" for k
      using it [of k] Inr wr assms(2) by (cases r) (simp_all del: serveLoop.simps)
    have log: "\<exists>ws. written (socket (fst w1)) = written (socket (fst w)) @ ws \<and>
           (ws = [] \<or>
            (\<exists>cl ds. ws = headBytes 200 [''Server: my_first_http_server'', cl] # ds \<and>
                     (\<forall>d\<in>set ds. d \<noteq> []))) \<and>
           (r = Resolved () \<longrightarrow> ws \<noteq> [])"
    proof (cases "length_rd (body ?res) < 0")
      case True
      from writeHTTPResp_sentinel [OF True, of "(fst w, buf0)"] wr show ?thesis
        by auto
    next
      case False
      then have "0 \<le> length_rd (body ?res)" by simp
      from writeHTTPResp_effect [OF this wr] obtain ds where
        A: "written (socket (fst w1)) = written (socket (fst w)) @
           headBytes (code ?res) (headers_res ?res @ [contentLengthLine (length_rd (body ?res))]) # ds"
        and B: "\<forall>d\<in>set ds. d \<noteq> []"
        by auto
      have "headBytes (code ?res) (headers_res ?res @ [contentLengthLine (length_rd (body ?res))])
          = headBytes 200 [''Server: my_first_http_server'', contentLengthLine (length_rd (body ?res))]"
        by (simp add: handleReq_def)
      with A have "written (socket (fst w1)) = written (socket (fst w)) @
          headBytes 200 [''Server: my_first_http_server'', contentLengthLine (length_rd (body ?res))] # ds"
        by (simp only:)
      with B show ?thesis
        by blast
    qed
    have ret: "fst (serveLoop (Suc n) w) = Returned \<longleftrightarrow> r = Resolved ()"
      unfolding out by (cases r) simp_all
    from out [of n] out [of 0] log ret Inr wr show ?thesis
      by (cases r) (auto simp del: serveLoop.simps)
  qed
qed

theorem http10_served_once_witness:
  "serveLoop 5
     (soInit \<lparr>incoming = [Data (''GET /c HTTP/1.0'' @ CRLFCRLF)], writeResults = [], written = [],
              flowing = False\<rparr>,
      bufPush emptyBuf (''GET / HTTP/1.0'' @ CRLFCRLF @ ''GET /b HTTP/1.0'' @ CRLFCRLF))
   = serveLoop 1
     (soInit \<lparr>incoming = [Data (''GET /c HTTP/1.0'' @ CRLFCRLF)], writeResults = [], written = [],
              flowing = False\<rparr>,
      bufPush emptyBuf (''GET / HTTP/1.0'' @ CRLFCRLF @ ''GET /b HTTP/1.0'' @ CRLFCRLF)) \<and>
   fst (serveLoop 1
     (soInit \<lparr>incoming = [Data (''GET /c HTTP/1.0'' @ CRLFCRLF)], writeResults = [], written = [],
              flowing = False\<rparr>,
      bufPush emptyBuf (''GET / HTTP/1.0'' @ CRLFCRLF @ ''GET /b HTTP/1.0'' @ CRLFCRLF))) = Returned \<and>
   written (socket (fst (snd (serveLoop 1
     (soInit \<lparr>incoming = [Data (''GET /c HTTP/1.0'' @ CRLFCRLF)], writeResults = [], written = [],
              flowing = False\<rparr>,
      bufPush emptyBuf (''GET / HTTP/1.0'' @ CRLFCRLF @ ''GET /b HTTP/1.0'' @ CRLFCRLF))))))
     = [''HTTP/1.1 200 OK'' @ CRLF @ ''Server: my_first_http_server'' @ CRLF @
        ''Content-Length: 13'' @ CRLF @ CRLF, ''hello world.'' @ [LF]] \<and>
   occupied (snd (snd (serveLoop 1
     (soInit \<lparr>incoming = [Data (''GET /c HTTP/1.0'' @ CRLFCRLF)], writeResults = [], written = [],
              flowing = False\<rparr>,
      bufPush emptyBuf (''GET / HTTP/1.0'' @ CRLFCRLF @ ''GET /b HTTP/1.0'' @ CRLFCRLF)))))
     = ''GET /b HTTP/1.0'' @ CRLFCRLF"
proof -
  let ?b = "bufPush emptyBuf (''GET / HTTP/1.0'' @ CRLFCRLF @ ''GET /b HTTP/1.0'' @ CRLFCRLF)"
  let ?w = "(soInit \<lparr>incoming = [Data (''GET /c HTTP/1.0'' @ CRLFCRLF)], writeResults = [],
                     written = [], flowing = False\<rparr>, ?b)"
  let ?msg = "\<lparr>method_req = ''GET'', uri = ''/'', version = ''1.0'', headers = []\<rparr>"
  have c: "cutMessage (snd ?w) = Inr (Some ?msg, bufPop ?b 18)"
    by code_simp
  have v: "version ?msg = ''1.0''"
    by simp
  have "(5::nat) = Suc 4"
    by simp
  with http10_served_once [OF c v, of 4] have a: "serveLoop 5 ?w = serveLoop 1 ?w"
    by (simp only:)
  have b: "fst (serveLoop 1 ?w) = Returned"
    "written (socket (fst (snd (serveLoop 1 ?w))))
       = [''HTTP/1.1 200 OK'' @ CRLF @ ''Server: my_first_http_server'' @ CRLF @
          ''Content-Length: 13'' @ CRLF @ CRLF, ''hello world.'' @ [LF]]"
    "occupied (snd (snd (serveLoop 1 ?w))) = ''GET /b HTTP/1.0'' @ CRLFCRLF"
    by code_simp+
  from a b show ?thesis
    by (intro conjI)
qed

text \<open>
  C7 as stated fails for a request of version \<open>1.0\<close> that \<open>readerFromReq\<close> refuses: the
  loop throws the HTTP error 400 and has written no response.
\<close>

theorem http10_refused_counterexample:
  "parseHTTPReq (''POST /x HTTP/1.0'' @ CRLF @ ''Content-Length: abc'' @ CRLFCRLF)
     = Inr \<lparr>method_req = ''POST'', uri = ''/x'', version = ''1.0'',
            headers = [''Content-Length: abc'']\<rparr> \<and>
   fst (serveClient 5
     (soInit \<lparr>incoming = [Data (''POST /x HTTP/1.0'' @ CRLF @ ''Content-Length: abc'' @ CRLFCRLF)],
              writeResults = [], written = [], flowing = False\<rparr>))
     = Threw (HTTPError 400 ''Bad Content-Length'') \<and>
   written (socket (fst (snd (serveClient 5
     (soInit \<lparr>incoming = [Data (''POST /x HTTP/1.0'' @ CRLF @ ''Content-Length: abc'' @ CRLFCRLF)],
              writeResults = [], written = [], flowing = False\<rparr>))))) = []"
  by code_simp

end
